theory Spec2Isabelle
  imports Main
begin

section \<open>Data model\<close>

text \<open>
  The program keeps all of its data in global variables and in objects reached from them.
  Objects with identity (Block, Path) live in two stores, indexed by reference; every
  other field holds references into these stores. Geometry (points, centre points,
  square length) and the canvas are not modelled: no function below reads them back.
\<close>

datatype error = TypeError

text \<open>A Block. An entry of \<open>adjacentBlocks\<close> is \<open>None\<close> where the source stored
  \<open>undefined\<close> (an out-of-range read of a row).\<close>

record block =
  isWall :: bool
  rowIndex :: nat
  blockIndex :: nat
  adjacentBlocks :: "nat option list"
  numberOfAdjacentWalls :: nat

record path =
  subPath :: "nat list"
  distance :: nat

text \<open>
  \<open>pathSeeds\<close> and \<open>secondSeeds\<close> are two variables holding arrays. The statement
  \<open>pathSeeds = secondSeeds\<close> makes both name one array, so the first variable is either
  an array of its own or an alias of the second.
\<close>

datatype seeds = Own "nat list" | SameAsSecondSeeds

record engine =
  numberOfRowBlocks :: nat
  numberOfRowPoints :: nat
  pointGrid :: "nat list"
  heap :: "block list"
  maze :: "nat list list"
  pathHeap :: "path list"
  mainPath :: "nat option"
  paths :: "nat list"
  pathSeeds :: seeds
  secondSeeds :: "nat list"
  pathsToSplice :: "nat list"
  character :: "nat option"
  currentBlock :: "nat option"
  currentRow :: "nat list option"
  rnd :: "nat \<Rightarrow> nat"
  rndUsed :: nat

text \<open>
  \<open>pointGrid\<close> lists the number of points of each row of the point grid; \<open>maze\<close> is
  \<open>maze.rows\<close>, each row the references of its blocks; \<open>character\<close> is
  \<open>character.location\<close>. \<open>rnd\<close> is the sequence of values \<open>Math.random\<close> returns,
  \<open>rndUsed\<close> the number of values consumed so far.

  A function of the program returns its value and the state it leaves, or the exception
  it threw and the state at that moment: the globals keep what was written before.
\<close>

datatype 'a result = Ok 'a engine | Threw error engine

fun finalState :: "'a result \<Rightarrow> engine" where
  "finalState (Ok x s) = s"
| "finalState (Threw e s) = s"

definition andThen :: "'a result \<Rightarrow> ('a \<Rightarrow> engine \<Rightarrow> 'b result) \<Rightarrow> 'b result" where
  "andThen r f = (case r of Ok x s \<Rightarrow> f x s | Threw e s \<Rightarrow> Threw e s)"

fun forEach :: "'a list \<Rightarrow> ('a \<Rightarrow> engine \<Rightarrow> unit result) \<Rightarrow> engine \<Rightarrow> unit result" where
  "forEach [] f s = Ok () s"
| "forEach (x # xs) f s =
     (case f x s of Ok u s' \<Rightarrow> forEach xs f s' | Threw e s' \<Rightarrow> Threw e s')"

text \<open>\<open>a[i]\<close> on a JavaScript array: \<open>undefined\<close> out of range.\<close>

definition at :: "'a list \<Rightarrow> nat \<Rightarrow> 'a option" where
  "at xs i = (if i < length xs then Some (xs ! i) else None)"

text \<open>
  \<open>Math.floor(Math.random() * k)\<close> for an integer \<open>k \<ge> 0\<close>: a value below \<open>k\<close>
  (\<open>0\<close> when \<open>k = 0\<close>), taken from the next element of the random sequence.
\<close>

definition randomFloor :: "nat \<Rightarrow> engine \<Rightarrow> nat \<times> engine" where
  "randomFloor k s =
     ((if k = 0 then 0 else rnd s (rndUsed s) mod k), s\<lparr>rndUsed := rndUsed s + 1\<rparr>)"

definition updBlock :: "nat \<Rightarrow> (block \<Rightarrow> block) \<Rightarrow> engine \<Rightarrow> engine" where
  "updBlock b f s = s\<lparr>heap := (heap s)[b := f (heap s ! b)]\<rparr>"

definition updPath :: "nat \<Rightarrow> (path \<Rightarrow> path) \<Rightarrow> engine \<Rightarrow> engine" where
  "updPath p f s = s\<lparr>pathHeap := (pathHeap s)[p := f (pathHeap s ! p)]\<rparr>"

text \<open>\<open>new Block(fourPoints)\<close> followed by the assignment of its two indices.\<close>

definition allocBlock :: "nat \<Rightarrow> nat \<Rightarrow> engine \<Rightarrow> nat \<times> engine" where
  "allocBlock r k s =
     (length (heap s),
      s\<lparr>heap := heap s @ [\<lparr>isWall = True, rowIndex = r, blockIndex = k,
                           adjacentBlocks = [], numberOfAdjacentWalls = 0\<rparr>]\<rparr>)"

text \<open>\<open>new Path()\<close>: the constructor appends the new path to \<open>paths\<close>.\<close>

definition allocPath :: "engine \<Rightarrow> nat \<times> engine" where
  "allocPath s =
     (length (pathHeap s),
      s\<lparr>pathHeap := pathHeap s @ [\<lparr>subPath = [], distance = 0\<rparr>],
        paths := paths s @ [length (pathHeap s)]\<rparr>)"

definition seedsOf :: "engine \<Rightarrow> nat list" where
  "seedsOf s = (case pathSeeds s of Own xs \<Rightarrow> xs | SameAsSecondSeeds \<Rightarrow> secondSeeds s)"

definition pushPathSeed :: "nat \<Rightarrow> engine \<Rightarrow> engine" where
  "pushPathSeed b s =
     (case pathSeeds s of
        Own xs \<Rightarrow> s\<lparr>pathSeeds := Own (xs @ [b])\<rparr>
      | SameAsSecondSeeds \<Rightarrow> s\<lparr>secondSeeds := secondSeeds s @ [b]\<rparr>)"

definition walls :: "engine \<Rightarrow> nat" where
  "walls s = length (filter isWall (heap s))"

section \<open>Adjacency\<close>

text \<open>checkForWallBlocks: the counter is reset, then incremented once per wall neighbour.\<close>

fun countWalls :: "nat \<Rightarrow> nat option list \<Rightarrow> engine \<Rightarrow> unit result" where
  "countWalls b [] s = Ok () s"
| "countWalls b (a # as) s =
     (case a of
        None \<Rightarrow> Threw TypeError s
      | Some x \<Rightarrow>
          if x < length (heap s)
          then countWalls b as
                 (if isWall (heap s ! x)
                  then updBlock b (\<lambda>c. c\<lparr>numberOfAdjacentWalls := numberOfAdjacentWalls c + 1\<rparr>) s
                  else s)
          else Threw TypeError s)"

definition checkForWallBlocks :: "nat option \<Rightarrow> engine \<Rightarrow> unit result" where
  "checkForWallBlocks thisBlock s =
     (case thisBlock of
        None \<Rightarrow> Threw TypeError s
      | Some b \<Rightarrow>
          if b < length (heap s)
          then countWalls b (adjacentBlocks (heap s ! b))
                 (updBlock b (\<lambda>c. c\<lparr>numberOfAdjacentWalls := 0\<rparr>) s)
          else Threw TypeError s)"

text \<open>
  getAdjacentBlocks: up, right, down, left, in this order. \<open>maze.rows[i]\<close> out of range is
  \<open>undefined\<close> and reading its \<open>blocks\<close> throws; \<open>blocks[k]\<close> out of range stores
  \<open>undefined\<close> in the list. Each of the four parts is \<open>None\<close> when it throws.
\<close>

definition neighbour :: "nat list list \<Rightarrow> bool \<Rightarrow> nat \<Rightarrow> nat \<Rightarrow> nat option list option" where
  "neighbour rows c i k =
     (if c then (case at rows i of None \<Rightarrow> None | Some row \<Rightarrow> Some [at row k]) else Some [])"

definition getAdjacentBlocks :: "nat \<Rightarrow> engine \<Rightarrow> unit result" where
  "getAdjacentBlocks middleBlock s =
     (if middleBlock < length (heap s)
      then
        (let thisRowIndex = rowIndex (heap s ! middleBlock);
             thisBlockIndex = blockIndex (heap s ! middleBlock)
         in case (neighbour (maze s) (thisRowIndex > 0) (thisRowIndex - 1) thisBlockIndex,
                  neighbour (maze s) (thisBlockIndex + 2 < numberOfRowBlocks s)
                    thisRowIndex (thisBlockIndex + 1),
                  neighbour (maze s) (thisRowIndex + 3 < length (maze s))
                    (thisRowIndex + 1) thisBlockIndex,
                  neighbour (maze s) (thisBlockIndex > 0) thisRowIndex (thisBlockIndex - 1))
            of (Some u, Some r, Some d, Some l) \<Rightarrow>
                 Ok () (updBlock middleBlock (\<lambda>c. c\<lparr>adjacentBlocks := u @ r @ d @ l\<rparr>) s)
             | _ \<Rightarrow> Threw TypeError s)
      else Threw TypeError s)"

definition resetRow :: "nat list \<Rightarrow> engine \<Rightarrow> unit result" where
  "resetRow row s = forEach row getAdjacentBlocks s"

text \<open>resetAdjacentBlocks: rows \<open>length - 1\<close> down to \<open>1\<close>; row \<open>0\<close> is not visited.\<close>

definition resetAdjacentBlocks :: "engine \<Rightarrow> unit result" where
  "resetAdjacentBlocks s = forEach (rev (drop 1 (maze s))) resetRow s"

section \<open>Building the grid\<close>

definition calculateDimensions :: "engine \<Rightarrow> engine" where
  "calculateDimensions s = s\<lparr>numberOfRowPoints := numberOfRowBlocks s + 1\<rparr>"

definition makePointGrid :: "engine \<Rightarrow> engine" where
  "makePointGrid s =
     s\<lparr>pointGrid := replicate (numberOfRowPoints s * 3) (numberOfRowPoints s)\<rparr>"

text \<open>
  One block of row \<open>i\<close> (of the maze) over row \<open>p\<close> of the point grid: the four corner
  points are read from rows \<open>p\<close> and \<open>p + 1\<close>, columns \<open>k\<close> and \<open>k + 1\<close>; reading the
  coordinates of a point that does not exist throws.
\<close>

definition placeBlock :: "nat \<Rightarrow> nat \<Rightarrow> nat \<Rightarrow> engine \<Rightarrow> unit result" where
  "placeBlock i p k s =
     (case (at (pointGrid s) p, at (pointGrid s) (p + 1)) of
        (Some n0, Some n1) \<Rightarrow>
          if k + 1 < n0 \<and> k + 1 < n1
          then (case allocBlock i k s of
                  (b, s') \<Rightarrow> Ok () (s'\<lparr>maze := (maze s')[i := (maze s' ! i) @ [b]]\<rparr>))
          else Threw TypeError s
      | _ \<Rightarrow> Threw TypeError s)"

definition makeMazeRow :: "nat \<Rightarrow> engine \<Rightarrow> unit result" where
  "makeMazeRow i s =
     forEach [0 ..< pointGrid s ! i - 2] (placeBlock i i) (s\<lparr>maze := maze s @ [[]]\<rparr>)"

definition makeMaze :: "engine \<Rightarrow> unit result" where
  "makeMaze s =
     andThen (forEach [0 ..< length (pointGrid s) - 2] makeMazeRow (s\<lparr>maze := []\<rparr>))
       (\<lambda>u s'. forEach (maze s') resetRow s')"


section \<open>Growing paths\<close>

text \<open>
  The four path-growing loops share one shape: every neighbour of the block at the end of
  the path is examined in the order of its \<open>adjacentBlocks\<close> list, its wall counter is
  recomputed, and it is appended to \<open>possibleNextBlocks\<close> when the rule of the loop
  accepts it. The rule reads the neighbour and the globals.
\<close>

fun scanNeighbours ::
  "(engine \<Rightarrow> block \<Rightarrow> bool) \<Rightarrow> nat option list \<Rightarrow> nat list \<Rightarrow> engine \<Rightarrow> nat list result"
where
  "scanNeighbours rule [] possibleNextBlocks s = Ok possibleNextBlocks s"
| "scanNeighbours rule (nBlock # rest) possibleNextBlocks s =
     (case checkForWallBlocks nBlock s of
        Threw e s' \<Rightarrow> Threw e s'
      | Ok u s' \<Rightarrow>
          (case nBlock of
             None \<Rightarrow> Threw TypeError s'
           | Some b \<Rightarrow>
               scanNeighbours rule rest
                 (if rule s' (heap s' ! b) then possibleNextBlocks @ [b]
                  else possibleNextBlocks) s'))"

text \<open>\<open>possibleNextBlocks[Math.floor(Math.random() * possibleNextBlocks.length)]\<close>\<close>

definition pickNext :: "nat list \<Rightarrow> engine \<Rightarrow> nat \<times> engine" where
  "pickNext possibleNextBlocks s =
     (case randomFloor (length possibleNextBlocks) s of
        (j, s') \<Rightarrow> (possibleNextBlocks ! j, s'))"

definition setFloor :: "nat \<Rightarrow> engine \<Rightarrow> engine" where
  "setFloor b s = updBlock b (\<lambda>c. c\<lparr>isWall := False\<rparr>) s"

definition pushSubPath :: "nat \<Rightarrow> nat \<Rightarrow> engine \<Rightarrow> engine" where
  "pushSubPath p b s = updPath p (\<lambda>q. q\<lparr>subPath := subPath q @ [b]\<rparr>) s"

subsection \<open>makeSubPath\<close>

definition subPathRule :: "engine \<Rightarrow> block \<Rightarrow> bool" where
  "subPathRule s nBlock \<longleftrightarrow>
     (rowIndex nBlock > 0 \<and> rowIndex nBlock + 3 \<le> length (maze s) \<and> blockIndex nBlock > 0
        \<and> blockIndex nBlock + 1 < numberOfRowBlocks s \<and> isWall nBlock
        \<and> numberOfAdjacentWalls nBlock > 2)
     \<or> (rowIndex nBlock = 1 \<and> numberOfAdjacentWalls nBlock > 1)"

text \<open>The part of one iteration after the neighbours have been examined.\<close>

definition subPathAdvance :: "nat \<Rightarrow> nat \<Rightarrow> nat list \<Rightarrow> engine \<Rightarrow> bool result" where
  "subPathAdvance newPath cur possibleNextBlocks s =
     (case (if possibleNextBlocks \<noteq> []
            then (case pickNext possibleNextBlocks s of
                    (c, s') \<Rightarrow> (c, pushSubPath newPath c (setFloor c (s'\<lparr>currentBlock := Some c\<rparr>))))
            else (cur, s))
      of (cur', s1) \<Rightarrow>
        if rowIndex (heap s1 ! cur') = 1 \<or> possibleNextBlocks = []
           \<or> length (subPath (pathHeap s1 ! newPath)) \<ge> distance (pathHeap s1 ! newPath)
        then Ok False
               (if possibleNextBlocks = []
                   \<or> length (subPath (pathHeap s1 ! newPath)) \<ge> distance (pathHeap s1 ! newPath)
                then s1\<lparr>pathsToSplice := pathsToSplice s1 @ [newPath]\<rparr> else s1)
        else (case randomFloor 20 s1 of
                (d, s2) \<Rightarrow>
                  Ok True (if d < 3 then s2\<lparr>secondSeeds := secondSeeds s2 @ [cur']\<rparr> else s2)))"

text \<open>One iteration of the while loop; the result is the value of \<open>createPath\<close>.\<close>

definition makeSubPathStep :: "nat \<Rightarrow> engine \<Rightarrow> bool result" where
  "makeSubPathStep newPath s =
     (case currentBlock s of
        None \<Rightarrow> Threw TypeError s
      | Some cur \<Rightarrow>
          if cur < length (heap s) \<and> newPath < length (pathHeap s)
          then andThen (scanNeighbours subPathRule (adjacentBlocks (heap s ! cur)) [] s)
                 (subPathAdvance newPath cur)
          else Threw TypeError s)"


subsection \<open>What the examination of neighbours leaves unchanged\<close>

definition sameButCounts :: "engine \<Rightarrow> engine \<Rightarrow> bool" where
  "sameButCounts s s' \<longleftrightarrow>
     s' = s\<lparr>heap := heap s'\<rparr>
     \<and> map (\<lambda>c. c\<lparr>numberOfAdjacentWalls := 0\<rparr>) (heap s')
       = map (\<lambda>c. c\<lparr>numberOfAdjacentWalls := 0\<rparr>) (heap s)"

lemma sameButCounts_refl [simp]: "sameButCounts s s"
  by (simp add: sameButCounts_def)

lemma sameButCounts_trans:
  assumes "sameButCounts s t" "sameButCounts t u"
  shows "sameButCounts s u"
proof -
  have 1: "t = s\<lparr>heap := heap t\<rparr>" and 2: "u = t\<lparr>heap := heap u\<rparr>"
    using assms by (simp_all add: sameButCounts_def)
  have "u = (s\<lparr>heap := heap t\<rparr>)\<lparr>heap := heap u\<rparr>"
    using 1 2 by simp
  then have "u = s\<lparr>heap := heap u\<rparr>" by simp
  then show ?thesis using assms by (simp add: sameButCounts_def)
qed

lemma map_update_same: "f y = f (xs ! b) \<Longrightarrow> map f (xs[b := y]) = map f xs"
  by (metis list_update_id map_update)

lemma sameButCounts_updBlock:
  "sameButCounts s (updBlock b (\<lambda>c. c\<lparr>numberOfAdjacentWalls := g c\<rparr>) s)"
  by (simp add: sameButCounts_def updBlock_def map_update_same)

lemma sameButCounts_length: "sameButCounts s s' \<Longrightarrow> length (heap s') = length (heap s)"
  unfolding sameButCounts_def by (metis length_map)

lemma sameButCounts_nth:
  assumes "sameButCounts s s'" "b < length (heap s)"
  shows "(heap s' ! b)\<lparr>numberOfAdjacentWalls := 0\<rparr> = (heap s ! b)\<lparr>numberOfAdjacentWalls := 0\<rparr>"
proof -
  have "map (\<lambda>c. c\<lparr>numberOfAdjacentWalls := 0\<rparr>) (heap s') ! b
        = map (\<lambda>c. c\<lparr>numberOfAdjacentWalls := 0\<rparr>) (heap s) ! b"
    using assms(1) by (simp add: sameButCounts_def)
  then show ?thesis
    using assms sameButCounts_length [OF assms(1)] by simp
qed

lemma sameButCounts_fields:
  assumes "sameButCounts s s'" "b < length (heap s)"
  shows "isWall (heap s' ! b) = isWall (heap s ! b)"
    and "rowIndex (heap s' ! b) = rowIndex (heap s ! b)"
    and "blockIndex (heap s' ! b) = blockIndex (heap s ! b)"
    and "adjacentBlocks (heap s' ! b) = adjacentBlocks (heap s ! b)"
proof -
  have e: "(heap s' ! b)\<lparr>numberOfAdjacentWalls := 0\<rparr> = (heap s ! b)\<lparr>numberOfAdjacentWalls := 0\<rparr>"
    by (rule sameButCounts_nth [OF assms])
  show "isWall (heap s' ! b) = isWall (heap s ! b)"
    using arg_cong [OF e, of isWall] by simp
  show "rowIndex (heap s' ! b) = rowIndex (heap s ! b)"
    using arg_cong [OF e, of rowIndex] by simp
  show "blockIndex (heap s' ! b) = blockIndex (heap s ! b)"
    using arg_cong [OF e, of blockIndex] by simp
  show "adjacentBlocks (heap s' ! b) = adjacentBlocks (heap s ! b)"
    using arg_cong [OF e, of adjacentBlocks] by simp
qed

lemma sameButCounts_rest:
  assumes "sameButCounts s s'"
  shows "maze s' = maze s" "pathHeap s' = pathHeap s" "paths s' = paths s"
    "numberOfRowBlocks s' = numberOfRowBlocks s" "mainPath s' = mainPath s"
    "pathSeeds s' = pathSeeds s" "secondSeeds s' = secondSeeds s"
    "pathsToSplice s' = pathsToSplice s" "character s' = character s"
    "currentBlock s' = currentBlock s" "rnd s' = rnd s" "rndUsed s' = rndUsed s"
    "pointGrid s' = pointGrid s" "numberOfRowPoints s' = numberOfRowPoints s"
    "currentRow s' = currentRow s"
proof -
  have e: "s' = s\<lparr>heap := heap s'\<rparr>" using assms by (simp add: sameButCounts_def)
  show "maze s' = maze s" by (subst e) simp
  show "pathHeap s' = pathHeap s" by (subst e) simp
  show "paths s' = paths s" by (subst e) simp
  show "numberOfRowBlocks s' = numberOfRowBlocks s" by (subst e) simp
  show "mainPath s' = mainPath s" by (subst e) simp
  show "pathSeeds s' = pathSeeds s" by (subst e) simp
  show "secondSeeds s' = secondSeeds s" by (subst e) simp
  show "pathsToSplice s' = pathsToSplice s" by (subst e) simp
  show "character s' = character s" by (subst e) simp
  show "currentBlock s' = currentBlock s" by (subst e) simp
  show "rnd s' = rnd s" by (subst e) simp
  show "rndUsed s' = rndUsed s" by (subst e) simp
  show "pointGrid s' = pointGrid s" by (subst e) simp
  show "numberOfRowPoints s' = numberOfRowPoints s" by (subst e) simp
  show "currentRow s' = currentRow s" by (subst e) simp
qed

lemma sameButCounts_wallMap:
  assumes "sameButCounts s s'"
  shows "map isWall (heap s') = map isWall (heap s)"
proof -
  have "map (isWall \<circ> (\<lambda>c. c\<lparr>numberOfAdjacentWalls := 0\<rparr>)) (heap s')
        = map (isWall \<circ> (\<lambda>c. c\<lparr>numberOfAdjacentWalls := 0\<rparr>)) (heap s)"
    using assms unfolding sameButCounts_def map_map [symmetric] by simp
  then show ?thesis by (simp add: comp_def)
qed

lemma walls_wallMap: "walls s = length (filter (\<lambda>w. w) (map isWall (heap s)))"
  by (simp add: walls_def filter_map comp_def)

lemma sameButCounts_walls: "sameButCounts s s' \<Longrightarrow> walls s' = walls s"
  by (simp add: walls_wallMap sameButCounts_wallMap)

lemma countWalls_same: "sameButCounts s (finalState (countWalls b adj s))"
proof (induction adj arbitrary: s)
  case Nil
  show ?case by simp
next
  case (Cons a adj)
  show ?case
  proof (cases a)
    case None
    then show ?thesis by simp
  next
    case (Some x)
    show ?thesis
      using Cons.IH [of s]
        Cons.IH [of "updBlock b (\<lambda>c. c\<lparr>numberOfAdjacentWalls := numberOfAdjacentWalls c + 1\<rparr>) s"]
        sameButCounts_updBlock [of s b "\<lambda>c. numberOfAdjacentWalls c + 1"]
      by (auto simp: Some intro: sameButCounts_trans)
  qed
qed

lemma checkForWallBlocks_same: "sameButCounts s (finalState (checkForWallBlocks nb s))"
proof (cases nb)
  case None
  then show ?thesis by (simp add: checkForWallBlocks_def)
next
  case (Some b)
  let ?t = "updBlock b (\<lambda>c. c\<lparr>numberOfAdjacentWalls := 0\<rparr>) s"
  have "sameButCounts s ?t" by (rule sameButCounts_updBlock)
  moreover have "sameButCounts ?t (finalState (countWalls b (adjacentBlocks (heap s ! b)) ?t))"
    by (rule countWalls_same)
  ultimately show ?thesis
    using Some by (auto simp: checkForWallBlocks_def intro: sameButCounts_trans)
qed

lemma checkForWallBlocks_Ok:
  "checkForWallBlocks nb s = Ok u s' \<Longrightarrow> \<exists>b. nb = Some b \<and> b < length (heap s)"
  unfolding checkForWallBlocks_def by (auto split: option.splits if_splits)

lemma scanNeighbours_same: "sameButCounts s (finalState (scanNeighbours rule adj acc s))"
proof (induction adj arbitrary: acc s)
  case Nil
  show ?case by simp
next
  case (Cons nb adj)
  show ?case
  proof (cases "checkForWallBlocks nb s")
    case (Threw e s')
    then show ?thesis using checkForWallBlocks_same [of s nb] by simp
  next
    case (Ok u s')
    then have 1: "sameButCounts s s'" using checkForWallBlocks_same [of s nb] by simp
    from Ok obtain b where b: "nb = Some b" using checkForWallBlocks_Ok by blast
    show ?thesis
      using Ok b Cons.IH [of s'] 1 by (auto intro: sameButCounts_trans)
  qed
qed

text \<open>Every block the examination returns was accepted by the rule in a state that
  differs from the initial one in wall counters only.\<close>

lemma scanNeighbours_accepted:
  "scanNeighbours rule adj acc s = Ok cands s' \<Longrightarrow> c \<in> set cands \<Longrightarrow>
     c \<in> set acc \<or> (c < length (heap s) \<and> (\<exists>t. sameButCounts s t \<and> rule t (heap t ! c)))"
proof (induction adj arbitrary: acc s)
  case Nil
  then show ?case by simp
next
  case (Cons nb adj)
  show ?case
  proof (cases "checkForWallBlocks nb s")
    case (Threw e t)
    with Cons.prems show ?thesis by simp
  next
    case (Ok u t)
    then have 1: "sameButCounts s t" using checkForWallBlocks_same [of s nb] by simp
    from Ok obtain b where b: "nb = Some b" "b < length (heap s)"
      using checkForWallBlocks_Ok by blast
    let ?acc = "if rule t (heap t ! b) then acc @ [b] else acc"
    from Cons.prems(1) Ok b have "scanNeighbours rule adj ?acc t = Ok cands s'" by simp
    from Cons.IH [OF this Cons.prems(2)]
    have "c \<in> set ?acc \<or> (c < length (heap t) \<and> (\<exists>t'. sameButCounts t t' \<and> rule t' (heap t' ! c)))" .
    then show ?thesis
    proof
      assume "c \<in> set ?acc"
      then show ?thesis using 1 b by (auto split: if_splits)
    next
      assume "c < length (heap t) \<and> (\<exists>t'. sameButCounts t t' \<and> rule t' (heap t' ! c))"
      then show ?thesis
        using 1 sameButCounts_length [OF 1] by (auto intro: sameButCounts_trans)
    qed
  qed
qed


subsection \<open>Termination of makeSubPath\<close>

lemma filter_update_le:
  "\<not> P y \<Longrightarrow> length (filter P (xs[c := y])) \<le> length (filter P xs)"
proof (induction xs arbitrary: c)
  case Nil
  then show ?case by simp
next
  case (Cons x xs)
  then show ?case by (cases c) (auto simp: le_SucI)
qed

lemma filter_update_less:
  "\<not> P y \<Longrightarrow> c < length xs \<Longrightarrow> P (xs ! c) \<Longrightarrow>
     length (filter P (xs[c := y])) < length (filter P xs)"
proof (induction xs arbitrary: c)
  case Nil
  then show ?case by simp
next
  case (Cons x xs)
  show ?case
  proof (cases c)
    case 0
    with Cons.prems show ?thesis by simp
  next
    case (Suc n)
    with Cons.IH [of n] Cons.prems show ?thesis by auto
  qed
qed

lemma walls_setFloor_le: "walls (setFloor c s) \<le> walls s"
  by (simp add: walls_def setFloor_def updBlock_def filter_update_le)

lemma walls_setFloor_less:
  "c < length (heap s) \<Longrightarrow> isWall (heap s ! c) \<Longrightarrow> walls (setFloor c s) < walls s"
  by (simp add: walls_def setFloor_def updBlock_def filter_update_less)

lemma pickNext_mem:
  "possibleNextBlocks \<noteq> [] \<Longrightarrow> pickNext possibleNextBlocks s = (c, s') \<Longrightarrow>
     c \<in> set possibleNextBlocks \<and> s' = s\<lparr>rndUsed := rndUsed s + 1\<rparr>"
  by (auto simp: pickNext_def randomFloor_def)

lemma subPathAdvance_measure:
  assumes "subPathAdvance p cur cands s = Ok True s'" "p < length (pathHeap s)"
  shows "distance (pathHeap s' ! p) - length (subPath (pathHeap s' ! p))
         < distance (pathHeap s ! p) - length (subPath (pathHeap s ! p))"
  using assms
  by (auto simp: subPathAdvance_def pickNext_def randomFloor_def pushSubPath_def setFloor_def
      updPath_def updBlock_def split: if_splits prod.splits)

lemma makeSubPathStep_measure:
  assumes "makeSubPathStep p s = Ok True s'"
  shows "distance (pathHeap s' ! p) - length (subPath (pathHeap s' ! p))
         < distance (pathHeap s ! p) - length (subPath (pathHeap s ! p))"
proof -
  from assms obtain cur where cur: "currentBlock s = Some cur" "p < length (pathHeap s)"
    by (auto simp: makeSubPathStep_def split: option.splits if_splits)
  from assms cur obtain cands t where
    scan: "scanNeighbours subPathRule (adjacentBlocks (heap s ! cur)) [] s = Ok cands t"
    and adv: "subPathAdvance p cur cands t = Ok True s'"
    by (auto simp: makeSubPathStep_def andThen_def split: if_splits result.splits)
  have "sameButCounts s t"
    using scanNeighbours_same [of s subPathRule "adjacentBlocks (heap s ! cur)" "[]"] scan
    by simp
  then have "pathHeap t = pathHeap s" by (rule sameButCounts_rest)
  with subPathAdvance_measure [OF adv] cur show ?thesis by simp
qed

text \<open>The while loop of makeSubPath.\<close>

function makeSubPathLoop :: "nat \<Rightarrow> engine \<Rightarrow> unit result" where
  "makeSubPathLoop newPath s =
     (case makeSubPathStep newPath s of
        Threw e s' \<Rightarrow> Threw e s'
      | Ok createPath s' \<Rightarrow> if createPath then makeSubPathLoop newPath s' else Ok () s')"
  by pat_completeness auto
termination
  by (relation "measure (\<lambda>(p, s). distance (pathHeap s ! p) - length (subPath (pathHeap s ! p)))")
    (auto dest: makeSubPathStep_measure)

declare makeSubPathLoop.simps [simp del]

definition makeSubPath :: "nat \<Rightarrow> engine \<Rightarrow> unit result" where
  "makeSubPath firstBlock s =
     (case allocPath s of
        (newPath, s1) \<Rightarrow>
          (case randomFloor (numberOfRowBlocks s1 * 2) s1 of
             (d, s2) \<Rightarrow>
               makeSubPathLoop newPath
                 ((pushSubPath newPath firstBlock
                     (updPath newPath (\<lambda>q. q\<lparr>distance := d\<rparr>) s2))
                  \<lparr>currentBlock := Some firstBlock\<rparr>)))"


subsection \<open>Seeds and walls\<close>

text \<open>
  A seed is set aside only in an iteration that has just turned a wall into floor, so the
  number of walls plus the number of second seeds never grows while a branch is made.
\<close>

definition seedBudget :: "engine \<Rightarrow> engine \<Rightarrow> bool" where
  "seedBudget s s' \<longleftrightarrow>
     pathSeeds s' = pathSeeds s \<and> length (secondSeeds s) \<le> length (secondSeeds s')
     \<and> walls s' + length (secondSeeds s') \<le> walls s + length (secondSeeds s)"

lemma seedBudget_refl [simp]: "seedBudget s s"
  by (simp add: seedBudget_def)

lemma seedBudget_trans: "seedBudget s t \<Longrightarrow> seedBudget t u \<Longrightarrow> seedBudget s u"
  by (auto simp: seedBudget_def)

lemma sameButCounts_budget: "sameButCounts s t \<Longrightarrow> seedBudget s t"
  by (simp add: seedBudget_def sameButCounts_walls sameButCounts_rest)

lemma subPathAdvance_budget:
  assumes "\<forall>c\<in>set cands. c < length (heap s) \<and> (isWall (heap s ! c) \<or> rowIndex (heap s ! c) = 1)"
  shows "seedBudget s (finalState (subPathAdvance p cur cands s))"
proof (cases "cands = []")
  case True
  then show ?thesis by (simp add: subPathAdvance_def seedBudget_def walls_def)
next
  case False
  obtain c s1 where pk: "pickNext cands s = (c, s1)" by (cases "pickNext cands s")
  from pickNext_mem [OF False pk]
  have c: "c \<in> set cands" and s1: "s1 = s\<lparr>rndUsed := rndUsed s + 1\<rparr>" by simp_all
  define t where "t = pushSubPath p c (setFloor c (s1\<lparr>currentBlock := Some c\<rparr>))"
  have heap_t: "heap t = heap (setFloor c s)"
    by (simp add: t_def s1 pushSubPath_def updPath_def setFloor_def updBlock_def)
  have w: "walls t = walls (setFloor c s)"
    by (simp add: walls_def heap_t)
  have cv: "c < length (heap s)" using c assms by blast
  have row: "rowIndex (heap t ! c) = rowIndex (heap s ! c)"
    using cv by (simp add: heap_t setFloor_def updBlock_def)
  have rest: "secondSeeds t = secondSeeds s" "pathSeeds t = pathSeeds s"
    by (simp_all add: t_def s1 pushSubPath_def updPath_def setFloor_def updBlock_def)
  have le: "walls t \<le> walls s" using w walls_setFloor_le [of c s] by simp
  have lt: "rowIndex (heap t ! c) \<noteq> 1 \<Longrightarrow> walls t < walls s"
    using w walls_setFloor_less [of c s] c assms row by auto
  show ?thesis
    using False pk le lt rest
    by (auto simp: subPathAdvance_def t_def [symmetric] seedBudget_def walls_def randomFloor_def)
qed

lemma subPathRule_wall: "subPathRule t c \<Longrightarrow> isWall c \<or> rowIndex c = 1"
  by (auto simp: subPathRule_def)

lemma makeSubPathStep_budget: "seedBudget s (finalState (makeSubPathStep p s))"
proof (cases "\<exists>cur. currentBlock s = Some cur \<and> cur < length (heap s) \<and> p < length (pathHeap s)")
  case False
  then show ?thesis by (auto simp: makeSubPathStep_def split: option.splits)
next
  case True
  then obtain cur where cur: "currentBlock s = Some cur" "cur < length (heap s)"
    "p < length (pathHeap s)" by blast
  let ?scan = "scanNeighbours subPathRule (adjacentBlocks (heap s ! cur)) [] s"
  have same: "sameButCounts s (finalState ?scan)" by (rule scanNeighbours_same)
  show ?thesis
  proof (cases ?scan)
    case (Threw e t)
    with same cur show ?thesis
      by (simp add: makeSubPathStep_def andThen_def sameButCounts_budget)
  next
    case (Ok cands t)
    with same have st: "sameButCounts s t" by simp
    have "\<forall>c\<in>set cands. c < length (heap t) \<and> (isWall (heap t ! c) \<or> rowIndex (heap t ! c) = 1)"
    proof
      fix c assume "c \<in> set cands"
      from scanNeighbours_accepted [OF Ok this]
      obtain u where u: "c < length (heap s)" "sameButCounts s u" "subPathRule u (heap u ! c)"
        by auto
      from subPathRule_wall [OF u(3)]
      have "isWall (heap s ! c) \<or> rowIndex (heap s ! c) = 1"
        using sameButCounts_fields [OF u(2) u(1)] by simp
      then show "c < length (heap t) \<and> (isWall (heap t ! c) \<or> rowIndex (heap t ! c) = 1)"
        using sameButCounts_fields [OF st u(1)] sameButCounts_length [OF st] u(1) by simp
    qed
    from subPathAdvance_budget [OF this]
    have "seedBudget t (finalState (subPathAdvance p cur cands t))" .
    with sameButCounts_budget [OF st] cur Ok show ?thesis
      by (auto simp: makeSubPathStep_def andThen_def intro: seedBudget_trans)
  qed
qed

lemma makeSubPathLoop_budget: "seedBudget s (finalState (makeSubPathLoop p s))"
proof (induction p s rule: makeSubPathLoop.induct)
  case (1 p s)
  show ?case
  proof (cases "makeSubPathStep p s")
    case (Threw e t)
    with makeSubPathStep_budget [of s p] show ?thesis
      by (subst makeSubPathLoop.simps) simp
  next
    case (Ok c t)
    with makeSubPathStep_budget [of s p] have st: "seedBudget s t" by simp
    show ?thesis
    proof (cases c)
      case True
      with "1.IH" [OF Ok] Ok st show ?thesis
        by (subst makeSubPathLoop.simps) (auto intro: seedBudget_trans)
    next
      case False
      with Ok st show ?thesis by (subst makeSubPathLoop.simps) simp
    qed
  qed
qed

lemma makeSubPath_budget: "seedBudget s (finalState (makeSubPath b s))"
proof -
  obtain p s1 where a: "allocPath s = (p, s1)" by (cases "allocPath s")
  obtain d s2 where r: "randomFloor (numberOfRowBlocks s1 * 2) s1 = (d, s2)"
    by (cases "randomFloor (numberOfRowBlocks s1 * 2) s1")
  let ?t = "(pushSubPath p b (updPath p (\<lambda>q. q\<lparr>distance := d\<rparr>) s2))\<lparr>currentBlock := Some b\<rparr>"
  have "seedBudget s ?t"
    using a r
    by (auto simp: seedBudget_def walls_def allocPath_def randomFloor_def pushSubPath_def
        updPath_def)
  with makeSubPathLoop_budget [of ?t p] a r show ?thesis
    by (auto simp: makeSubPath_def intro: seedBudget_trans)
qed

text \<open>
  \<open>for (var i = 0; i < pathSeeds.length; i++) makeSubPath(pathSeeds[i])\<close>: the length
  is read again at every iteration, so blocks appended to the array during the loop are
  visited as well. That happens when \<open>pathSeeds\<close> names the array of \<open>secondSeeds\<close>.
\<close>

function growSeeds :: "nat \<Rightarrow> engine \<Rightarrow> unit result" where
  "growSeeds i s =
     (if i < length (seedsOf s)
      then (case makeSubPath (seedsOf s ! i) s of
              Threw e s' \<Rightarrow> Threw e s'
            | Ok u s' \<Rightarrow> growSeeds (i + 1) s')
      else Ok () s)"
  by pat_completeness auto
termination
proof (relation "measure (\<lambda>(i, s). walls s + (length (seedsOf s) - i))")
  show "wf (measure (\<lambda>(i, s). walls s + (length (seedsOf s) - i)))" by simp
next
  fix i s u s'
  assume i: "i < length (seedsOf s)" and m: "makeSubPath (seedsOf s ! i) s = Ok u s'"
  from makeSubPath_budget [of s "seedsOf s ! i"] m have "seedBudget s s'" by simp
  then show "((i + 1, s'), (i, s)) \<in> measure (\<lambda>(i, s). walls s + (length (seedsOf s) - i))"
    using i by (auto simp: seedBudget_def seedsOf_def split: seeds.splits)
qed

declare growSeeds.simps [simp del]


subsection \<open>extendPaths\<close>

definition extendPathsRule :: "engine \<Rightarrow> block \<Rightarrow> bool" where
  "extendPathsRule s nBlock \<longleftrightarrow>
     rowIndex nBlock > 0 \<and> rowIndex nBlock + 3 \<le> length (maze s) \<and> blockIndex nBlock > 0
     \<and> blockIndex nBlock + 1 < numberOfRowBlocks s \<and> isWall nBlock
     \<and> numberOfAdjacentWalls nBlock > 2"

text \<open>The chosen block is made floor and appended to the path, and may be set aside as
  a second seed. The result is the new value of \<open>latestBlock\<close>.\<close>

definition extendPathsGrow :: "nat \<Rightarrow> nat \<Rightarrow> nat list \<Rightarrow> engine \<Rightarrow> nat \<times> engine" where
  "extendPathsGrow thisPath latestBlock possibleNextBlocks s =
     (if possibleNextBlocks \<noteq> []
      then (case pickNext possibleNextBlocks s of
              (c, s') \<Rightarrow>
                (case randomFloor 9 (pushSubPath thisPath c (setFloor c s')) of
                   (d, s'') \<Rightarrow>
                     (c, if d < 1 then s''\<lparr>secondSeeds := secondSeeds s'' @ [c]\<rparr> else s'')))
      else (latestBlock, s))"

text \<open>
  The end of one iteration. \<open>nBlock\<close> is the variable of the for loop after the loop: the
  last neighbour examined. The source reads it only when \<open>possibleNextBlocks\<close> is not
  empty, so the loop has run in this iteration.
\<close>

definition extendPathsDecide ::
  "nat \<Rightarrow> nat \<Rightarrow> nat option \<Rightarrow> nat list \<Rightarrow> engine \<Rightarrow> (bool \<times> nat) result"
where
  "extendPathsDecide thisPath latestBlock nBlock possibleNextBlocks s =
     (if rowIndex (heap s ! latestBlock) = 1 \<or> possibleNextBlocks = []
         \<or> length (subPath (pathHeap s ! thisPath)) \<ge> distance (pathHeap s ! thisPath)
      then
        (if length (subPath (pathHeap s ! thisPath)) \<ge> distance (pathHeap s ! thisPath)
            \<or> possibleNextBlocks = []
         then Ok (False, latestBlock) (s\<lparr>pathsToSplice := pathsToSplice s @ [thisPath]\<rparr>)
         else (case nBlock of
                 None \<Rightarrow> Threw TypeError s
               | Some nb \<Rightarrow>
                   Ok (False, latestBlock)
                     (if rowIndex (heap s ! nb) + 3 \<ge> length (maze s)
                      then s\<lparr>pathsToSplice := pathsToSplice s @ [thisPath]\<rparr>
                      else s)))
      else Ok (True, latestBlock) s)"

definition extendPathsAdvance ::
  "nat \<Rightarrow> nat \<Rightarrow> nat option \<Rightarrow> nat list \<Rightarrow> engine \<Rightarrow> (bool \<times> nat) result"
where
  "extendPathsAdvance thisPath latestBlock nBlock possibleNextBlocks s =
     (case extendPathsGrow thisPath latestBlock possibleNextBlocks s of
        (latest', s1) \<Rightarrow> extendPathsDecide thisPath latest' nBlock possibleNextBlocks s1)"

definition extendPathsStep :: "nat \<Rightarrow> nat \<Rightarrow> engine \<Rightarrow> (bool \<times> nat) result" where
  "extendPathsStep thisPath latestBlock s =
     (if latestBlock < length (heap s) \<and> thisPath < length (pathHeap s)
      then andThen (scanNeighbours extendPathsRule (adjacentBlocks (heap s ! latestBlock)) [] s)
             (extendPathsAdvance thisPath latestBlock
                (if adjacentBlocks (heap s ! latestBlock) = [] then None
                 else last (adjacentBlocks (heap s ! latestBlock))))
      else Threw TypeError s)"

lemma extendPathsAdvance_measure:
  assumes "extendPathsAdvance p latest nb cands s = Ok (True, latest') s'"
    "p < length (pathHeap s)"
  shows "distance (pathHeap s' ! p) - length (subPath (pathHeap s' ! p))
         < distance (pathHeap s ! p) - length (subPath (pathHeap s ! p))"
  using assms
  by (auto simp: extendPathsAdvance_def extendPathsGrow_def extendPathsDecide_def pickNext_def
      randomFloor_def pushSubPath_def setFloor_def updPath_def updBlock_def
      split: if_splits prod.splits option.splits)

lemma extendPathsStep_measure:
  assumes "extendPathsStep p latest s = Ok (True, latest') s'"
  shows "distance (pathHeap s' ! p) - length (subPath (pathHeap s' ! p))
         < distance (pathHeap s ! p) - length (subPath (pathHeap s ! p))"
proof -
  from assms have p: "p < length (pathHeap s)"
    by (auto simp: extendPathsStep_def split: if_splits)
  let ?adj = "adjacentBlocks (heap s ! latest)"
  from assms p obtain cands t where
    scan: "scanNeighbours extendPathsRule ?adj [] s = Ok cands t"
    and adv: "extendPathsAdvance p latest (if ?adj = [] then None else last ?adj) cands t
              = Ok (True, latest') s'"
    by (auto simp: extendPathsStep_def andThen_def split: if_splits result.splits)
  have "sameButCounts s t"
    using scanNeighbours_same [of s extendPathsRule ?adj "[]"] scan by simp
  then have "pathHeap t = pathHeap s" by (rule sameButCounts_rest)
  with extendPathsAdvance_measure [OF adv] p show ?thesis by simp
qed

function extendPathsLoop :: "nat \<Rightarrow> nat \<Rightarrow> engine \<Rightarrow> unit result" where
  "extendPathsLoop thisPath latestBlock s =
     (case extendPathsStep thisPath latestBlock s of
        Threw e s' \<Rightarrow> Threw e s'
      | Ok (createPath, latest') s' \<Rightarrow>
          if createPath then extendPathsLoop thisPath latest' s' else Ok () s')"
  by pat_completeness auto
termination
  by (relation "measure (\<lambda>(p, l, s). distance (pathHeap s ! p) - length (subPath (pathHeap s ! p)))")
    (auto dest: extendPathsStep_measure)

declare extendPathsLoop.simps [simp del]

text \<open>An empty \<open>subPath\<close> leaves \<open>latestBlock\<close> undefined, and getAdjacentBlocks throws.\<close>

definition extendPaths :: "nat \<Rightarrow> engine \<Rightarrow> unit result" where
  "extendPaths thisPath s =
     (case at (pathHeap s) thisPath of
        None \<Rightarrow> Threw TypeError s
      | Some q \<Rightarrow>
          if subPath q = [] then Threw TypeError s
          else andThen (getAdjacentBlocks (last (subPath q)) s)
                 (\<lambda>u. extendPathsLoop thisPath (last (subPath q))))"

subsection \<open>extendMainPath\<close>

definition extendMainRule :: "nat \<Rightarrow> engine \<Rightarrow> block \<Rightarrow> bool" where
  "extendMainRule latestBlock s nBlock \<longleftrightarrow>
     (rowIndex nBlock > 0 \<and> rowIndex nBlock \<le> rowIndex (heap s ! latestBlock)
        \<and> blockIndex nBlock > 0 \<and> blockIndex nBlock < numberOfRowBlocks s \<and> isWall nBlock
        \<and> numberOfAdjacentWalls nBlock > 1)
     \<or> (rowIndex nBlock = 1 \<and> numberOfAdjacentWalls nBlock > 2)"

text \<open>The chosen block is appended to the main path and the first block of the path is
  removed (\<open>splice(0, 1)\<close>).\<close>

definition extendMainGrow :: "nat \<Rightarrow> nat list \<Rightarrow> engine \<Rightarrow> nat result" where
  "extendMainGrow latestBlock possibleNextBlocks s =
     (if possibleNextBlocks \<noteq> []
      then (case pickNext possibleNextBlocks s of
              (c, s') \<Rightarrow>
                (case mainPath s' of
                   None \<Rightarrow> Threw TypeError (setFloor c s')
                 | Some m \<Rightarrow>
                     if m < length (pathHeap s')
                     then Ok c (updPath m (\<lambda>q. q\<lparr>subPath := drop 1 (subPath q @ [c])\<rparr>)
                                  (setFloor c s'))
                     else Threw TypeError (setFloor c s')))
      else Ok latestBlock s)"

definition extendMainAdvance :: "nat \<Rightarrow> nat list \<Rightarrow> engine \<Rightarrow> (bool \<times> nat) result" where
  "extendMainAdvance latestBlock possibleNextBlocks s =
     andThen (extendMainGrow latestBlock possibleNextBlocks s)
       (\<lambda>latest' s1.
          if rowIndex (heap s1 ! latest') = 1 \<or> possibleNextBlocks = []
          then Ok (False, latest') s1
          else (case randomFloor 7 s1 of
                  (d, s2) \<Rightarrow> Ok (True, latest') (if d < 1 then pushPathSeed latest' s2 else s2)))"

definition extendMainStep :: "nat \<Rightarrow> engine \<Rightarrow> (bool \<times> nat) result" where
  "extendMainStep latestBlock s =
     (if latestBlock < length (heap s)
      then andThen (scanNeighbours (extendMainRule latestBlock)
                      (adjacentBlocks (heap s ! latestBlock)) [] s)
             (extendMainAdvance latestBlock)
      else Threw TypeError s)"

lemma walls_pushPathSeed [simp]: "walls (pushPathSeed b s) = walls s"
  by (simp add: walls_def pushPathSeed_def split: seeds.splits)

lemma extendMainAdvance_walls:
  assumes "extendMainAdvance latest cands s = Ok (True, latest') s'"
    "\<forall>c\<in>set cands. c < length (heap s) \<and> (isWall (heap s ! c) \<or> rowIndex (heap s ! c) = 1)"
  shows "walls s' < walls s"
proof -
  from assms(1) have ne: "cands \<noteq> []"
    by (auto simp: extendMainAdvance_def andThen_def split: result.splits if_splits)
  obtain c s1 where pk: "pickNext cands s = (c, s1)" by (cases "pickNext cands s")
  from pickNext_mem [OF ne pk]
  have c: "c \<in> set cands" and s1: "s1 = s\<lparr>rndUsed := rndUsed s + 1\<rparr>" by simp_all
  have cv: "c < length (heap s)" using c assms(2) by blast
  from assms(1) ne pk obtain m where m: "mainPath s1 = Some m" "m < length (pathHeap s1)"
    by (auto simp: extendMainAdvance_def extendMainGrow_def andThen_def
        split: option.splits if_splits)
  define t where "t = updPath m (\<lambda>q. q\<lparr>subPath := drop 1 (subPath q @ [c])\<rparr>) (setFloor c s1)"
  have heap_t: "heap t = heap (setFloor c s)"
    by (simp add: t_def s1 updPath_def setFloor_def updBlock_def)
  have row: "rowIndex (heap t ! c) = rowIndex (heap s ! c)"
    using cv by (simp add: heap_t setFloor_def updBlock_def)
  from assms(1) ne pk m have cont: "rowIndex (heap t ! c) \<noteq> 1"
    and s': "heap s' = heap t"
    by (auto simp: extendMainAdvance_def extendMainGrow_def andThen_def t_def randomFloor_def
        pushPathSeed_def split: if_splits seeds.splits)
  from cont row c assms(2) have "isWall (heap s ! c)" by auto
  from walls_setFloor_less [OF cv this] show ?thesis
    by (simp add: walls_def s' heap_t)
qed

lemma extendMainRule_wall: "extendMainRule l t c \<Longrightarrow> isWall c \<or> rowIndex c = 1"
  by (auto simp: extendMainRule_def)

lemma accepted_walls:
  assumes scan: "scanNeighbours rule adj [] s = Ok cands t"
    and rule: "\<And>u c. rule u c \<Longrightarrow> isWall c \<or> rowIndex c = 1"
  shows "\<forall>c\<in>set cands. c < length (heap t) \<and> (isWall (heap t ! c) \<or> rowIndex (heap t ! c) = 1)"
proof
  fix c assume "c \<in> set cands"
  have st: "sameButCounts s t" using scanNeighbours_same [of s rule adj "[]"] scan by simp
  from scanNeighbours_accepted [OF scan \<open>c \<in> set cands\<close>]
  obtain u where u: "c < length (heap s)" "sameButCounts s u" "rule u (heap u ! c)"
    by auto
  from rule [OF u(3)]
  have "isWall (heap s ! c) \<or> rowIndex (heap s ! c) = 1"
    using sameButCounts_fields [OF u(2) u(1)] by simp
  then show "c < length (heap t) \<and> (isWall (heap t ! c) \<or> rowIndex (heap t ! c) = 1)"
    using sameButCounts_fields [OF st u(1)] sameButCounts_length [OF st] u(1) by simp
qed

lemma extendMainStep_walls:
  assumes "extendMainStep latest s = Ok (True, latest') s'"
  shows "walls s' < walls s"
proof -
  let ?adj = "adjacentBlocks (heap s ! latest)"
  from assms obtain cands t where
    scan: "scanNeighbours (extendMainRule latest) ?adj [] s = Ok cands t"
    and adv: "extendMainAdvance latest cands t = Ok (True, latest') s'"
    by (auto simp: extendMainStep_def andThen_def split: if_splits result.splits)
  have st: "sameButCounts s t"
    using scanNeighbours_same [of s "extendMainRule latest" ?adj "[]"] scan by simp
  from extendMainAdvance_walls [OF adv accepted_walls [OF scan extendMainRule_wall]]
  show ?thesis using sameButCounts_walls [OF st] by simp
qed

function extendMainLoop :: "nat \<Rightarrow> engine \<Rightarrow> unit result" where
  "extendMainLoop latestBlock s =
     (case extendMainStep latestBlock s of
        Threw e s' \<Rightarrow> Threw e s'
      | Ok (createPath, latest') s' \<Rightarrow>
          if createPath then extendMainLoop latest' s' else Ok () s')"
  by pat_completeness auto
termination
  by (relation "measure (\<lambda>(l, s). walls s)") (auto dest: extendMainStep_walls)

declare extendMainLoop.simps [simp del]

definition extendMainPath :: "engine \<Rightarrow> unit result" where
  "extendMainPath s =
     (case mainPath s of
        None \<Rightarrow> Threw TypeError s
      | Some m \<Rightarrow>
          (case at (pathHeap s) m of
             None \<Rightarrow> Threw TypeError s
           | Some q \<Rightarrow>
               if subPath q = [] then Threw TypeError s
               else extendMainLoop (last (subPath q)) s))"


subsection \<open>makePath\<close>

definition makePathRule :: "nat \<Rightarrow> engine \<Rightarrow> block \<Rightarrow> bool" where
  "makePathRule cur s nBlock \<longleftrightarrow>
     rowIndex nBlock > 0 \<and> rowIndex nBlock \<le> rowIndex (heap s ! cur) \<and> blockIndex nBlock > 0
     \<and> blockIndex nBlock + 1 < numberOfRowBlocks s \<and> isWall nBlock"

text \<open>
  The for loop of makePath: an accepted neighbour enters \<open>possibleNextBlocks\<close> once, a
  second time when more than one of its neighbours is a wall, a third time when more
  than two are.
\<close>

fun scanMainNeighbours ::
  "nat \<Rightarrow> nat option list \<Rightarrow> nat list \<Rightarrow> engine \<Rightarrow> nat list result"
where
  "scanMainNeighbours cur [] possibleNextBlocks s = Ok possibleNextBlocks s"
| "scanMainNeighbours cur (nBlock # rest) possibleNextBlocks s =
     (case nBlock of
        None \<Rightarrow> Threw TypeError s
      | Some b \<Rightarrow>
          if b < length (heap s)
          then
            (if makePathRule cur s (heap s ! b)
             then (case checkForWallBlocks nBlock s of
                     Threw e s' \<Rightarrow> Threw e s'
                   | Ok u s' \<Rightarrow>
                       scanMainNeighbours cur rest
                         (possibleNextBlocks @ [b]
                            @ (if numberOfAdjacentWalls (heap s' ! b) > 1 then [b] else [])
                            @ (if numberOfAdjacentWalls (heap s' ! b) > 2 then [b] else []))
                         s')
             else scanMainNeighbours cur rest possibleNextBlocks s)
          else Threw TypeError s)"

definition makePathAdvance :: "nat \<Rightarrow> nat list \<Rightarrow> engine \<Rightarrow> bool result" where
  "makePathAdvance cur possibleNextBlocks s =
     (if rowIndex (heap s ! cur) = 1 \<or> possibleNextBlocks = [] then Ok False s
      else (case pickNext possibleNextBlocks s of
              (c, s') \<Rightarrow>
                (case mainPath s' of
                   None \<Rightarrow> Threw TypeError (setFloor c (s'\<lparr>currentBlock := Some c\<rparr>))
                 | Some m \<Rightarrow>
                     if m < length (pathHeap s')
                     then (case randomFloor 21
                                  (pushSubPath m c (setFloor c (s'\<lparr>currentBlock := Some c\<rparr>)))
                           of (d, s'') \<Rightarrow> Ok True (if d < 4 then pushPathSeed c s'' else s''))
                     else Threw TypeError (setFloor c (s'\<lparr>currentBlock := Some c\<rparr>)))))"

definition makePathStep :: "engine \<Rightarrow> bool result" where
  "makePathStep s =
     (case currentBlock s of
        None \<Rightarrow> Threw TypeError s
      | Some cur \<Rightarrow>
          if cur < length (heap s)
          then andThen (scanMainNeighbours cur (adjacentBlocks (heap s ! cur)) [] s)
                 (makePathAdvance cur)
          else Threw TypeError s)"

lemma scanMainNeighbours_same: "sameButCounts s (finalState (scanMainNeighbours cur adj acc s))"
proof (induction adj arbitrary: acc s)
  case Nil
  show ?case by simp
next
  case (Cons nb adj)
  show ?case
  proof (cases "checkForWallBlocks nb s")
    case (Threw e s')
    then show ?thesis
      using checkForWallBlocks_same [of s nb] Cons.IH [of s]
      by (auto split: option.splits)
  next
    case (Ok u s')
    then have 1: "sameButCounts s s'" using checkForWallBlocks_same [of s nb] by simp
    show ?thesis
      using Ok Cons.IH [of s'] Cons.IH [of s] 1
      by (auto split: option.splits intro: sameButCounts_trans)
  qed
qed

lemma scanMainNeighbours_accepted:
  "scanMainNeighbours cur adj acc s = Ok cands s' \<Longrightarrow> c \<in> set cands \<Longrightarrow>
     c \<in> set acc
     \<or> (c < length (heap s) \<and> (\<exists>t. sameButCounts s t \<and> makePathRule cur t (heap t ! c)))"
proof (induction adj arbitrary: acc s)
  case Nil
  then show ?case by simp
next
  case (Cons nb adj)
  from Cons.prems(1) obtain b where b: "nb = Some b" "b < length (heap s)"
    by (auto split: option.splits if_splits)
  show ?case
  proof (cases "makePathRule cur s (heap s ! b)")
    case False
    with Cons.prems(1) b have "scanMainNeighbours cur adj acc s = Ok cands s'" by simp
    from Cons.IH [OF this Cons.prems(2)] show ?thesis .
  next
    case True
    with Cons.prems(1) b obtain u t where ck: "checkForWallBlocks nb s = Ok u t"
      by (auto split: result.splits)
    then have 1: "sameButCounts s t" using checkForWallBlocks_same [of s nb] by simp
    let ?acc = "acc @ [b] @ (if numberOfAdjacentWalls (heap t ! b) > 1 then [b] else [])
                  @ (if numberOfAdjacentWalls (heap t ! b) > 2 then [b] else [])"
    from Cons.prems(1) b True ck have "scanMainNeighbours cur adj ?acc t = Ok cands s'"
      by simp
    from Cons.IH [OF this Cons.prems(2)]
    have "c \<in> set ?acc
      \<or> (c < length (heap t) \<and> (\<exists>t'. sameButCounts t t' \<and> makePathRule cur t' (heap t' ! c)))" .
    then show ?thesis
    proof
      assume "c \<in> set ?acc"
      then have "c \<in> set acc \<or> c = b" by (auto split: if_splits)
      moreover have "\<exists>t. sameButCounts s t \<and> makePathRule cur t (heap t ! b)"
        using True sameButCounts_refl by blast
      ultimately show ?thesis using b by auto
    next
      assume "c < length (heap t) \<and> (\<exists>t'. sameButCounts t t' \<and> makePathRule cur t' (heap t' ! c))"
      then show ?thesis
        using 1 sameButCounts_length [OF 1] by (auto intro: sameButCounts_trans)
    qed
  qed
qed

lemma makePathAdvance_walls:
  assumes "makePathAdvance cur cands s = Ok True s'"
    "\<forall>c\<in>set cands. c < length (heap s) \<and> isWall (heap s ! c)"
  shows "walls s' < walls s"
proof -
  from assms(1) have ne: "cands \<noteq> []"
    by (auto simp: makePathAdvance_def split: if_splits)
  obtain c s1 where pk: "pickNext cands s = (c, s1)" by (cases "pickNext cands s")
  from pickNext_mem [OF ne pk]
  have c: "c \<in> set cands" and s1: "s1 = s\<lparr>rndUsed := rndUsed s + 1\<rparr>" by simp_all
  have cv: "c < length (heap s)" "isWall (heap s ! c)" using c assms(2) by auto
  from assms(1) ne pk have "heap s' = heap (setFloor c s)"
    by (auto simp: makePathAdvance_def s1 randomFloor_def pushSubPath_def updPath_def
        setFloor_def updBlock_def pushPathSeed_def split: if_splits option.splits seeds.splits)
  with walls_setFloor_less [OF cv] show ?thesis by (simp add: walls_def)
qed

lemma makePathStep_walls:
  assumes "makePathStep s = Ok True s'"
  shows "walls s' < walls s"
proof -
  from assms obtain cur where cur: "currentBlock s = Some cur" "cur < length (heap s)"
    by (auto simp: makePathStep_def split: option.splits if_splits)
  let ?adj = "adjacentBlocks (heap s ! cur)"
  from assms cur obtain cands t where
    scan: "scanMainNeighbours cur ?adj [] s = Ok cands t"
    and adv: "makePathAdvance cur cands t = Ok True s'"
    by (auto simp: makePathStep_def andThen_def split: result.splits)
  have st: "sameButCounts s t"
    using scanMainNeighbours_same [of s cur ?adj "[]"] scan by simp
  have "\<forall>c\<in>set cands. c < length (heap t) \<and> isWall (heap t ! c)"
  proof
    fix c assume "c \<in> set cands"
    from scanMainNeighbours_accepted [OF scan this]
    obtain u where u: "c < length (heap s)" "sameButCounts s u" "makePathRule cur u (heap u ! c)"
      by auto
    then have "isWall (heap s ! c)"
      using sameButCounts_fields [OF u(2) u(1)] by (simp add: makePathRule_def)
    then show "c < length (heap t) \<and> isWall (heap t ! c)"
      using sameButCounts_fields [OF st u(1)] sameButCounts_length [OF st] u(1) by simp
  qed
  from makePathAdvance_walls [OF adv this] show ?thesis
    using sameButCounts_walls [OF st] by simp
qed

function makePathLoop :: "engine \<Rightarrow> unit result" where
  "makePathLoop s =
     (case makePathStep s of
        Threw e s' \<Rightarrow> Threw e s'
      | Ok createPath s' \<Rightarrow> if createPath then makePathLoop s' else Ok () s')"
  by pat_completeness auto
termination
  by (relation "measure walls") (auto dest: makePathStep_walls)

declare makePathLoop.simps [simp del]

text \<open>
  \<open>paths.splice(paths.indexOf(p), 1)\<close>: the first occurrence of \<open>p\<close> is removed; when
  \<open>p\<close> is not in the array, \<open>indexOf\<close> is \<open>-1\<close> and \<open>splice(-1, 1)\<close> removes the last
  element.
\<close>

definition spliceOne :: "nat list \<Rightarrow> nat \<Rightarrow> nat list" where
  "spliceOne ps p = (if p \<in> set ps then remove1 p ps else butlast ps)"

definition splicePaths :: "engine \<Rightarrow> engine" where
  "splicePaths s = s\<lparr>paths := foldl spliceOne (paths s) (pathsToSplice s)\<rparr>"

text \<open>
  \<open>Math.floor(Math.random() * (currentRow.blocks.length - 1)) + 1\<close>. The factor is
  \<open>-1\<close> for an empty row, and the value is then \<open>0\<close> or \<open>1\<close>.
\<close>

definition randomBlockIndex :: "nat \<Rightarrow> engine \<Rightarrow> nat \<times> engine" where
  "randomBlockIndex len s =
     (if len = 0 then (1 - rnd s (rndUsed s) mod 2, s\<lparr>rndUsed := rndUsed s + 1\<rparr>)
      else (case randomFloor (len - 1) s of (j, s') \<Rightarrow> (j + 1, s')))"

text \<open>The first two blocks of the main path: the block of \<open>currentRow\<close> at the drawn
  index becomes \<open>currentBlock\<close>, is made floor and is appended to the path.\<close>

definition firstBlocks :: "nat \<Rightarrow> nat list option \<Rightarrow> nat \<Rightarrow> engine \<Rightarrow> unit result" where
  "firstBlocks m row k s =
     (case row of
        None \<Rightarrow> Threw TypeError (s\<lparr>currentRow := None\<rparr>)
      | Some blocks \<Rightarrow>
          (case at blocks k of
             None \<Rightarrow> Threw TypeError (s\<lparr>currentRow := row, currentBlock := None\<rparr>)
           | Some b \<Rightarrow>
               if b < length (heap s)
               then Ok () (pushSubPath m b
                             (setFloor b (s\<lparr>currentRow := row, currentBlock := Some b\<rparr>)))
               else Threw TypeError (s\<lparr>currentRow := row, currentBlock := Some b\<rparr>)))"

text \<open>\<open>maze.rows[maze.rows.length - d]\<close> for \<open>d > 0\<close>: a negative index is \<open>undefined\<close>.\<close>

definition rowFromEnd :: "nat \<Rightarrow> engine \<Rightarrow> nat list option" where
  "rowFromEnd d s = (if length (maze s) < d then None else at (maze s) (length (maze s) - d))"

definition makePathStart :: "nat \<Rightarrow> engine \<Rightarrow> unit result" where
  "makePathStart m s =
     (case rowFromEnd 1 s of
        None \<Rightarrow> Threw TypeError (s\<lparr>currentRow := None\<rparr>)
      | Some blocks \<Rightarrow>
          (case randomBlockIndex (length blocks) (s\<lparr>currentRow := Some blocks\<rparr>) of
             (k, s1) \<Rightarrow>
               andThen (firstBlocks m (Some blocks) k s1)
                 (\<lambda>u s2. firstBlocks m (rowFromEnd 2 s2) k s2)))"

text \<open>The end of makePath: the branches of the seeds, the branches of the second seeds,
  the removal of the paths set aside, and three new empty arrays.\<close>

definition makePathBranches :: "engine \<Rightarrow> unit result" where
  "makePathBranches s =
     andThen (growSeeds 0 s)
       (\<lambda>u s1.
          andThen (growSeeds 0 (s1\<lparr>pathSeeds := SameAsSecondSeeds\<rparr>))
            (\<lambda>u s2.
               Ok () ((splicePaths s2)
                        \<lparr>pathSeeds := Own [], secondSeeds := [], pathsToSplice := []\<rparr>)))"

text \<open>makePath up to its while loop: the new main path and its first two blocks.\<close>

definition makePathHead :: "engine \<Rightarrow> unit result" where
  "makePathHead s =
     (case allocPath s of
        (m, s1) \<Rightarrow>
          makePathStart m
            ((updPath m (\<lambda>q. q\<lparr>distance := numberOfRowBlocks s1 * 20\<rparr>)
                (s1\<lparr>mainPath := Some m\<rparr>))\<lparr>pathSeeds := Own []\<rparr>))"

definition makePath :: "engine \<Rightarrow> unit result" where
  "makePath s =
     andThen (makePathHead s) (\<lambda>u s1. andThen (makePathLoop s1) (\<lambda>u. makePathBranches))"

definition makeCharacter :: "engine \<Rightarrow> unit result" where
  "makeCharacter s =
     (case mainPath s of
        None \<Rightarrow> Threw TypeError s
      | Some m \<Rightarrow>
          (case at (pathHeap s) m of
             None \<Rightarrow> Threw TypeError s
           | Some q \<Rightarrow> Ok () (s\<lparr>character := at (subPath q) 0\<rparr>)))"

section \<open>Shifting the maze\<close>

definition clearAdjacent :: "nat \<Rightarrow> engine \<Rightarrow> unit result" where
  "clearAdjacent b s =
     (if b < length (heap s) then Ok () (updBlock b (\<lambda>c. c\<lparr>adjacentBlocks := []\<rparr>) s)
      else Threw TypeError s)"

definition moveBlockDown :: "nat \<Rightarrow> engine \<Rightarrow> unit result" where
  "moveBlockDown mBlock s =
     (if mBlock < length (heap s)
      then Ok () (updBlock mBlock (\<lambda>c. c\<lparr>rowIndex := rowIndex c + 1\<rparr>) s)
      else Threw TypeError s)"

text \<open>The loop \<open>for (i = maze.rows.length - 1; i > 0; i--)\<close> of shiftMaze, from \<open>i\<close> down.\<close>

fun shiftRows :: "nat \<Rightarrow> engine \<Rightarrow> unit result" where
  "shiftRows 0 s = Ok () s"
| "shiftRows (Suc j) s =
     (case forEach (maze s ! j) moveBlockDown (s\<lparr>maze := (maze s)[Suc j := maze s ! j]\<rparr>) of
        Threw e s' \<Rightarrow> Threw e s'
      | Ok u s' \<Rightarrow> shiftRows j s')"

definition createNewRow :: "engine \<Rightarrow> unit result" where
  "createNewRow s =
     (case at (pointGrid s) 0 of
        None \<Rightarrow> Threw TypeError (s\<lparr>maze := (if maze s = [] then [[]] else (maze s)[0 := []])\<rparr>)
      | Some n0 \<Rightarrow>
          andThen (forEach [0 ..< n0 - 2] (placeBlock 0 0)
                     (s\<lparr>maze := (if maze s = [] then [[]] else (maze s)[0 := []])\<rparr>))
            (\<lambda>u. resetAdjacentBlocks))"

definition extendAndCheck :: "nat \<Rightarrow> engine \<Rightarrow> unit result" where
  "extendAndCheck p s =
     andThen (extendPaths p s)
       (\<lambda>u s'. Ok () (if subPath (pathHeap s' ! p) = []
                       then s'\<lparr>pathsToSplice := pathsToSplice s' @ [p]\<rparr> else s'))"

text \<open>The paths set aside by the previous pass are removed first.\<close>

definition prunePaths :: "engine \<Rightarrow> engine" where
  "prunePaths s = (splicePaths s)\<lparr>pathsToSplice := []\<rparr>"

text \<open>The part of shiftPaths after extendMainPath.\<close>

definition shiftBranches :: "engine \<Rightarrow> unit result" where
  "shiftBranches s =
     andThen (growSeeds 0 s)
       (\<lambda>u s1.
          andThen (forEach (drop 1 (paths s1)) extendAndCheck (s1\<lparr>pathSeeds := Own []\<rparr>))
            (\<lambda>u s2.
               andThen (growSeeds 0 (s2\<lparr>pathSeeds := SameAsSecondSeeds\<rparr>))
                 (\<lambda>u s3. Ok () (s3\<lparr>pathSeeds := Own [], secondSeeds := []\<rparr>))))"

definition shiftPaths :: "engine \<Rightarrow> unit result" where
  "shiftPaths s = andThen (extendMainPath (prunePaths s)) (\<lambda>u. shiftBranches)"

text \<open>The part of shiftMaze before shiftPaths: the rows and their blocks.\<close>

definition shiftGrid :: "engine \<Rightarrow> unit result" where
  "shiftGrid s =
     (case rowFromEnd 1 s of
        None \<Rightarrow> Threw TypeError s
      | Some blocks \<Rightarrow>
          andThen (forEach blocks clearAdjacent s)
            (\<lambda>u s1.
               andThen (shiftRows (length (maze s1) - 1) s1)
                 (\<lambda>u s2. andThen (createNewRow s2) (\<lambda>u. resetAdjacentBlocks))))"

definition shiftMaze :: "engine \<Rightarrow> unit result" where
  "shiftMaze s = andThen (shiftGrid s) (\<lambda>u. shiftPaths)"

section \<open>Moving the character\<close>

text \<open>
  The block the character would move to: \<open>maze.rows[r].blocks[k]\<close> for the row and
  column given (\<open>None\<close> stands for the index \<open>-1\<close>). Reading \<open>blocks\<close> of a row that does
  not exist throws, and so does reading \<open>isWall\<close> of a block that does not exist.
\<close>

definition target :: "nat option \<Rightarrow> nat option \<Rightarrow> engine \<Rightarrow> nat option" where
  "target r k s =
     (case (r, k) of
        (Some i, Some j) \<Rightarrow>
          (case at (maze s) i of
             None \<Rightarrow> None
           | Some blocks \<Rightarrow>
               (case at blocks j of
                  None \<Rightarrow> None
                | Some b \<Rightarrow> if b < length (heap s) then Some b else None))
      | _ \<Rightarrow> None)"

definition before :: "nat \<Rightarrow> nat option" where
  "before i = (if i = 0 then None else Some (i - 1))"

text \<open>
  The test \<open>rowIndex < maze.rows.length * (5 / 6) - 1\<close> of moveUp, in exact arithmetic:
  \<open>6 * (rowIndex + 1) < 5 * maze.rows.length\<close>.
\<close>

definition moveUp :: "engine \<Rightarrow> unit result" where
  "moveUp s =
     (case character s of
        None \<Rightarrow> Threw TypeError s
      | Some currentLocation \<Rightarrow>
          if currentLocation < length (heap s)
          then (case target (before (rowIndex (heap s ! currentLocation)))
                       (Some (blockIndex (heap s ! currentLocation))) s of
                  None \<Rightarrow> Threw TypeError s
                | Some possibleNewLocation \<Rightarrow>
                    if \<not> isWall (heap s ! possibleNewLocation)
                    then andThen
                           (if 6 * (rowIndex (heap s ! possibleNewLocation) + 1)
                                 < 5 * length (maze s)
                            then shiftMaze s else Ok () s)
                           (\<lambda>u s'. Ok () (s'\<lparr>character := Some possibleNewLocation\<rparr>))
                    else Ok () s)
          else Threw TypeError s)"

definition moveTo :: "nat option \<Rightarrow> engine \<Rightarrow> unit result" where
  "moveTo possibleNewLocation s =
     (case possibleNewLocation of
        None \<Rightarrow> Threw TypeError s
      | Some b \<Rightarrow> if \<not> isWall (heap s ! b) then Ok () (s\<lparr>character := Some b\<rparr>) else Ok () s)"

definition moveDown :: "engine \<Rightarrow> unit result" where
  "moveDown s =
     (case character s of
        None \<Rightarrow> Threw TypeError s
      | Some currentLocation \<Rightarrow>
          if currentLocation < length (heap s)
          then moveTo (target (Some (rowIndex (heap s ! currentLocation) + 1))
                         (Some (blockIndex (heap s ! currentLocation))) s) s
          else Threw TypeError s)"

definition moveLeft :: "engine \<Rightarrow> unit result" where
  "moveLeft s =
     (case character s of
        None \<Rightarrow> Threw TypeError s
      | Some currentLocation \<Rightarrow>
          if currentLocation < length (heap s)
          then moveTo (target (Some (rowIndex (heap s ! currentLocation)))
                         (before (blockIndex (heap s ! currentLocation))) s) s
          else Threw TypeError s)"

definition moveRight :: "engine \<Rightarrow> unit result" where
  "moveRight s =
     (case character s of
        None \<Rightarrow> Threw TypeError s
      | Some currentLocation \<Rightarrow>
          if currentLocation < length (heap s)
          then moveTo (target (Some (rowIndex (heap s ! currentLocation)))
                         (Some (blockIndex (heap s ! currentLocation) + 1)) s) s
          else Threw TypeError s)"

text \<open>The key listener: W, A, S, D by key code; any other key does nothing.\<close>

definition keydown :: "nat \<Rightarrow> engine \<Rightarrow> unit result" where
  "keydown keyCode s =
     (if keyCode = 87 then moveUp s
      else if keyCode = 65 then moveLeft s
      else if keyCode = 83 then moveDown s
      else if keyCode = 68 then moveRight s
      else Ok () s)"

section \<open>Initialisation\<close>

text \<open>The globals when the script has been loaded, for a given \<open>numberOfRowBlocks\<close>.\<close>

definition loaded :: "nat \<Rightarrow> (nat \<Rightarrow> nat) \<Rightarrow> engine" where
  "loaded n r =
     \<lparr>numberOfRowBlocks = n, numberOfRowPoints = 0, pointGrid = [], heap = [], maze = [],
      pathHeap = [], mainPath = None, paths = [], pathSeeds = Own [], secondSeeds = [],
      pathsToSplice = [], character = None, currentBlock = None, currentRow = None,
      rnd = r, rndUsed = 0\<rparr>"

definition start :: "engine \<Rightarrow> unit result" where
  "start s =
     andThen (makeMaze (makePointGrid (calculateDimensions s)))
       (\<lambda>u s1. andThen (makePath s1) (\<lambda>u. makeCharacter))"

text \<open>
  The states of the program between two events: the state \<open>start\<close> leaves when it
  returns, and the state any key handler leaves, whether it returns or throws.
\<close>

inductive reachable :: "engine \<Rightarrow> bool" where
  init: "start (loaded n r) = Ok () s \<Longrightarrow> reachable s"
| key: "reachable s \<Longrightarrow> reachable (finalState (keydown keyCode s))"

section \<open>Invariants\<close>

text \<open>
  A block reference is good when it names a block of the store that is floor and whose
  row index is at least 1. The references held by the paths and by the two seed arrays
  are the ones the invariants are about.
\<close>

definition good :: "engine \<Rightarrow> nat \<Rightarrow> bool" where
  "good s b \<longleftrightarrow> b < length (heap s) \<and> \<not> isWall (heap s ! b) \<and> 1 \<le> rowIndex (heap s ! b)"

definition refs :: "engine \<Rightarrow> nat set" where
  "refs s = (\<Union>q\<in>set (pathHeap s). set (subPath q)) \<union> set (seedsOf s) \<union> set (secondSeeds s)"

definition sound :: "engine \<Rightarrow> bool" where
  "sound s \<longleftrightarrow>
     (\<forall>b\<in>refs s. good s b) \<and> (\<forall>p\<in>set (paths s). p < length (pathHeap s))
     \<and> (\<forall>c. character s = Some c \<longrightarrow> c < length (heap s) \<and> \<not> isWall (heap s ! c))"

text \<open>
  What every step of path generation respects: the grid, the character and the indices
  of the blocks stay as they are, floor stays floor, paths do not get shorter, and every
  reference that is new is good.
\<close>

definition carved :: "engine \<Rightarrow> engine \<Rightarrow> bool" where
  "carved s s' \<longleftrightarrow>
     maze s' = maze s \<and> pointGrid s' = pointGrid s
     \<and> numberOfRowBlocks s' = numberOfRowBlocks s \<and> character s' = character s
     \<and> rnd s' = rnd s \<and> mainPath s' = mainPath s
     \<and> length (heap s') = length (heap s)
     \<and> (\<forall>b<length (heap s).
           rowIndex (heap s' ! b) = rowIndex (heap s ! b)
           \<and> blockIndex (heap s' ! b) = blockIndex (heap s ! b)
           \<and> (isWall (heap s' ! b) \<longrightarrow> isWall (heap s ! b)))
     \<and> refs s' \<subseteq> refs s \<union> {b. good s' b}
     \<and> length (pathHeap s) \<le> length (pathHeap s')
     \<and> (\<forall>p<length (pathHeap s).
           length (subPath (pathHeap s ! p)) \<le> length (subPath (pathHeap s' ! p)))
     \<and> set (paths s') \<subseteq> set (paths s) \<union> {p. p < length (pathHeap s')}"

lemma carved_refl [simp]: "carved s s"
  by (auto simp: carved_def)

lemma carved_good: "carved s s' \<Longrightarrow> good s b \<Longrightarrow> good s' b"
  by (auto simp: carved_def good_def)

lemma carved_trans:
  assumes "carved s t" "carved t u"
  shows "carved s u"
proof -
  have g: "\<And>b. good t b \<Longrightarrow> good u b" using assms(2) by (rule carved_good)
  have r: "refs u \<subseteq> refs s \<union> {b. good u b}"
  proof
    fix b assume "b \<in> refs u"
    then have "b \<in> refs t \<or> good u b" using assms(2) by (auto simp: carved_def)
    then have "b \<in> refs s \<or> good t b \<or> good u b" using assms(1) by (auto simp: carved_def)
    then show "b \<in> refs s \<union> {b. good u b}" using g by auto
  qed
  have p: "set (paths u) \<subseteq> set (paths s) \<union> {p. p < length (pathHeap u)}"
  proof
    fix p assume "p \<in> set (paths u)"
    then have "p \<in> set (paths t) \<or> p < length (pathHeap u)"
      using assms(2) by (auto simp: carved_def)
    then have "p \<in> set (paths s) \<or> p < length (pathHeap t) \<or> p < length (pathHeap u)"
      using assms(1) by (auto simp: carved_def)
    moreover have "length (pathHeap t) \<le> length (pathHeap u)"
      using assms(2) by (simp add: carved_def)
    ultimately show "p \<in> set (paths s) \<union> {p. p < length (pathHeap u)}" by auto
  qed
  have l: "\<forall>p<length (pathHeap s).
             length (subPath (pathHeap s ! p)) \<le> length (subPath (pathHeap u ! p))"
  proof (intro allI impI)
    fix p assume a: "p < length (pathHeap s)"
    then have "length (subPath (pathHeap s ! p)) \<le> length (subPath (pathHeap t ! p))"
      using assms(1) by (simp add: carved_def)
    moreover have "p < length (pathHeap t)" using a assms(1) by (simp add: carved_def)
    then have "length (subPath (pathHeap t ! p)) \<le> length (subPath (pathHeap u ! p))"
      using assms(2) by (simp add: carved_def)
    ultimately show "length (subPath (pathHeap s ! p)) \<le> length (subPath (pathHeap u ! p))"
      by simp
  qed
  have h: "\<forall>b<length (heap s).
           rowIndex (heap u ! b) = rowIndex (heap s ! b)
           \<and> blockIndex (heap u ! b) = blockIndex (heap s ! b)
           \<and> (isWall (heap u ! b) \<longrightarrow> isWall (heap s ! b))"
    using assms by (simp add: carved_def)
  show ?thesis
    unfolding carved_def using assms r p l h by (simp add: carved_def)
qed

lemma carved_sound:
  assumes "carved s s'" "sound s"
  shows "sound s'"
proof -
  have "\<forall>b\<in>refs s'. good s' b"
  proof
    fix b assume "b \<in> refs s'"
    then have "b \<in> refs s \<or> good s' b" using assms(1) by (auto simp: carved_def)
    then show "good s' b" using assms(2) carved_good [OF assms(1)] by (auto simp: sound_def)
  qed
  moreover have "\<forall>p\<in>set (paths s'). p < length (pathHeap s')"
    using assms by (fastforce simp: carved_def sound_def)
  moreover have "\<forall>c. character s' = Some c \<longrightarrow> c < length (heap s') \<and> \<not> isWall (heap s' ! c)"
    using assms by (auto simp: carved_def sound_def)
  ultimately show ?thesis by (simp add: sound_def)
qed

text \<open>Composition of steps that respect a transitive relation.\<close>

lemma andThen_rel:
  assumes "\<And>a b c. R a b \<Longrightarrow> R b c \<Longrightarrow> R a c"
    and "R s (finalState r)"
    and "\<And>x t. r = Ok x t \<Longrightarrow> R t (finalState (f x t))"
  shows "R s (finalState (andThen r f))"
proof (cases r)
  case (Ok x t)
  with assms(2) assms(3) [OF Ok] assms(1) show ?thesis by (auto simp: andThen_def)
next
  case (Threw e t)
  with assms(2) show ?thesis by (simp add: andThen_def)
qed

lemma forEach_rel:
  assumes "\<And>a b c. R a b \<Longrightarrow> R b c \<Longrightarrow> R a c"
    and "\<And>a. R a a"
    and "\<And>x t. x \<in> set xs \<Longrightarrow> R t (finalState (f x t))"
  shows "R s (finalState (forEach xs f s))"
  using assms(3)
proof (induction xs arbitrary: s)
  case Nil
  show ?case by (simp add: assms(2))
next
  case (Cons x xs)
  show ?case
  proof (cases "f x s")
    case (Ok u t)
    have "R s t" using Cons.prems [of x s] Ok by simp
    moreover have "R t (finalState (forEach xs f t))"
      by (rule Cons.IH) (simp add: Cons.prems)
    ultimately show ?thesis using Ok assms(1) by auto
  next
    case (Threw e t)
    then show ?thesis using Cons.prems [of x s] by simp
  qed
qed

lemma carved_andThen:
  assumes "carved s (finalState r)"
    and "\<And>x t. r = Ok x t \<Longrightarrow> carved t (finalState (f x t))"
  shows "carved s (finalState (andThen r f))"
proof (rule andThen_rel [where R = carved])
  show "\<And>a b c. carved a b \<Longrightarrow> carved b c \<Longrightarrow> carved a c" by (rule carved_trans)
qed (use assms in auto)

lemma carved_forEach:
  assumes "\<And>x t. x \<in> set xs \<Longrightarrow> carved t (finalState (f x t))"
  shows "carved s (finalState (forEach xs f s))"
proof (rule forEach_rel [where R = carved])
  show "\<And>a b c. carved a b \<Longrightarrow> carved b c \<Longrightarrow> carved a c" by (rule carved_trans)
qed (use assms in auto)

subsection \<open>The single writes\<close>

lemma refs_heap [simp]: "refs (s\<lparr>heap := h\<rparr>) = refs s"
  by (simp add: refs_def seedsOf_def split: seeds.splits)

lemma nth_update:
  "(xs[b := y]) ! j = (if b = j \<and> b < length xs then y else xs ! j)"
  by (cases "b < length xs") (auto simp: nth_list_update list_update_beyond)

lemma carved_count:
  "carved s (updBlock b (\<lambda>c. c\<lparr>numberOfAdjacentWalls := f c\<rparr>) s)"
  by (auto simp: carved_def updBlock_def good_def nth_update)

lemma carved_adjacent:
  "carved s (updBlock b (\<lambda>c. c\<lparr>adjacentBlocks := a\<rparr>) s)"
  by (auto simp: carved_def updBlock_def good_def nth_update)

lemma carved_setFloor: "carved s (setFloor b s)"
  by (auto simp: carved_def setFloor_def updBlock_def good_def nth_update)

lemma sameButCounts_carved:
  assumes "sameButCounts s t"
  shows "carved s t"
proof -
  have e: "t = s\<lparr>heap := heap t\<rparr>" using assms by (simp add: sameButCounts_def)
  have f: "\<forall>b<length (heap s).
           rowIndex (heap t ! b) = rowIndex (heap s ! b)
           \<and> blockIndex (heap t ! b) = blockIndex (heap s ! b)
           \<and> (isWall (heap t ! b) \<longrightarrow> isWall (heap s ! b))"
    using sameButCounts_fields [OF assms] by simp
  have r: "refs t = refs s" by (subst e) simp
  show ?thesis
    unfolding carved_def
    using f r sameButCounts_rest [OF assms] sameButCounts_length [OF assms] by auto
qed


lemma good_heap_eq: "heap t = heap s \<Longrightarrow> good t = good s"
  by (auto simp: good_def fun_eq_iff)

lemma carved_misc:
  "carved s (s\<lparr>rndUsed := k\<rparr>)" "carved s (s\<lparr>currentBlock := c\<rparr>)"
  "carved s (s\<lparr>currentRow := r\<rparr>)" "carved s (s\<lparr>pathsToSplice := ps\<rparr>)"
  by (auto simp: carved_def refs_def seedsOf_def split: seeds.splits)

lemma carved_seeds:
  "carved s (s\<lparr>pathSeeds := SameAsSecondSeeds\<rparr>)" "carved s (s\<lparr>pathSeeds := Own []\<rparr>)"
  "carved s (s\<lparr>secondSeeds := []\<rparr>)"
  by (auto simp: carved_def refs_def seedsOf_def split: seeds.splits)

lemma carved_secondSeed:
  "good s b \<Longrightarrow> carved s (s\<lparr>secondSeeds := secondSeeds s @ [b]\<rparr>)"
  by (auto simp: carved_def refs_def seedsOf_def good_def split: seeds.splits)

lemma carved_pushPathSeed: "good s b \<Longrightarrow> carved s (pushPathSeed b s)"
  by (auto simp: carved_def refs_def seedsOf_def good_def pushPathSeed_def split: seeds.splits)

lemma carved_randomFloor: "carved s (snd (randomFloor k s))"
  by (simp add: randomFloor_def carved_misc)

lemma carved_pickNext: "carved s (snd (pickNext cands s))"
  by (simp add: pickNext_def randomFloor_def carved_misc split: prod.splits)

lemma set_update_cases:
  "x \<in> set (xs[i := y]) \<Longrightarrow> (i < length xs \<and> x = y \<and> xs ! i \<in> set xs) \<or> x \<in> set xs"
  using set_update_subset_insert [of xs i y]
  by (cases "i < length xs") (auto simp: list_update_beyond)

lemma carved_pushSubPath: "good s b \<Longrightarrow> carved s (pushSubPath p b s)"
  unfolding carved_def pushSubPath_def updPath_def refs_def
  by (auto simp: seedsOf_def good_def nth_update dest!: set_update_cases split: seeds.splits)

lemma carved_pushDrop:
  "good s b \<Longrightarrow> carved s (updPath m (\<lambda>q. q\<lparr>subPath := drop 1 (subPath q @ [b])\<rparr>) s)"
  unfolding carved_def updPath_def refs_def
  by (auto simp: seedsOf_def good_def nth_update dest!: set_update_cases in_set_dropD
      split: seeds.splits)

lemma carved_setDistance: "carved s (updPath p (\<lambda>q. q\<lparr>distance := d\<rparr>) s)"
  unfolding carved_def updPath_def refs_def
  by (auto simp: seedsOf_def good_def nth_update dest!: set_update_cases split: seeds.splits)

lemma carved_allocPath: "carved s (snd (allocPath s))"
  unfolding carved_def allocPath_def refs_def
  by (auto simp: seedsOf_def good_def nth_append split: seeds.splits)

lemma set_spliceOne: "set (spliceOne ps p) \<subseteq> set ps"
  using set_remove1_subset [of p ps] by (auto simp: spliceOne_def dest: in_set_butlastD)

lemma set_foldl_spliceOne: "set (foldl spliceOne ps xs) \<subseteq> set ps"
proof (induction xs arbitrary: ps)
  case Nil
  show ?case by simp
next
  case (Cons x xs)
  from Cons.IH [of "spliceOne ps x"] set_spliceOne [of ps x] show ?case by auto
qed

lemma carved_splicePaths: "carved s (splicePaths s)"
  using set_foldl_spliceOne [of "paths s" "pathsToSplice s"]
  by (auto simp: carved_def splicePaths_def refs_def seedsOf_def split: seeds.splits)

lemma accepted_rows:
  assumes scan: "scanNeighbours rule adj [] s = Ok cands t"
    and rule: "\<And>u c. rule u c \<Longrightarrow> 1 \<le> rowIndex c"
  shows "\<forall>c\<in>set cands. c < length (heap t) \<and> 1 \<le> rowIndex (heap t ! c)"
proof
  fix c assume "c \<in> set cands"
  have st: "sameButCounts s t" using scanNeighbours_same [of s rule adj "[]"] scan by simp
  from scanNeighbours_accepted [OF scan \<open>c \<in> set cands\<close>]
  obtain u where u: "c < length (heap s)" "sameButCounts s u" "rule u (heap u ! c)"
    by auto
  from rule [OF u(3)]
  have "1 \<le> rowIndex (heap s ! c)"
    using sameButCounts_fields [OF u(2) u(1)] by simp
  then show "c < length (heap t) \<and> 1 \<le> rowIndex (heap t ! c)"
    using sameButCounts_fields [OF st u(1)] sameButCounts_length [OF st] u(1) by simp
qed

lemma pickNext_cases:
  "cands \<noteq> [] \<Longrightarrow> \<exists>c\<in>set cands. pickNext cands s = (c, s\<lparr>rndUsed := rndUsed s + 1\<rparr>)"
  by (auto simp: pickNext_def randomFloor_def)

lemma subPathAdvance_carved:
  assumes "\<forall>c\<in>set cands. c < length (heap s) \<and> 1 \<le> rowIndex (heap s ! c)"
  shows "carved s (finalState (subPathAdvance p cur cands s))"
proof (cases "cands = []")
  case True
  then show ?thesis by (simp add: subPathAdvance_def carved_misc)
next
  case False
  from pickNext_cases [OF False, of s] obtain c where c: "c \<in> set cands"
    and pk: "pickNext cands s = (c, s\<lparr>rndUsed := rndUsed s + 1\<rparr>)" by blast
  from c assms have cv: "c < length (heap s)" "1 \<le> rowIndex (heap s ! c)" by auto
  define t where "t = pushSubPath p c (setFloor c (s\<lparr>rndUsed := rndUsed s + 1, currentBlock := Some c\<rparr>))"
  have g: "good (setFloor c (s\<lparr>rndUsed := rndUsed s + 1, currentBlock := Some c\<rparr>)) c"
    using cv by (simp add: good_def setFloor_def updBlock_def)
  have eq: "subPathAdvance p cur cands s =
      (if rowIndex (heap t ! c) = 1
          \<or> length (subPath (pathHeap t ! p)) \<ge> distance (pathHeap t ! p)
       then Ok False
              (if length (subPath (pathHeap t ! p)) \<ge> distance (pathHeap t ! p)
               then t\<lparr>pathsToSplice := pathsToSplice t @ [p]\<rparr> else t)
       else (case randomFloor 20 t of
               (d, s2) \<Rightarrow>
                 Ok True (if d < 3 then s2\<lparr>secondSeeds := secondSeeds s2 @ [c]\<rparr> else s2)))"
    using False pk by (simp add: subPathAdvance_def t_def)
  have 1: "carved s t"
    unfolding t_def
    by (rule carved_trans [OF _ carved_pushSubPath [OF g]], rule carved_trans [OF _ carved_setFloor],
        rule carved_trans [OF carved_misc(1) carved_misc(2)])
  have gt: "good t c" using carved_good [OF carved_pushSubPath [OF g] g] by (simp add: t_def)
  have 2: "carved t (t\<lparr>pathsToSplice := pathsToSplice t @ [p]\<rparr>)" by (rule carved_misc)
  have 3: "carved t (snd (randomFloor 20 t))" by (rule carved_randomFloor)
  have g3: "good (snd (randomFloor 20 t)) c" by (rule carved_good [OF 3 gt])
  have 4: "carved t ((snd (randomFloor 20 t))\<lparr>secondSeeds := secondSeeds (snd (randomFloor 20 t)) @ [c]\<rparr>)"
    by (rule carved_trans [OF 3 carved_secondSeed [OF g3]])
  show ?thesis
    unfolding eq using 1 2 3 4
    by (auto split: prod.splits intro: carved_trans)
qed


lemma subPathRule_row: "subPathRule t c \<Longrightarrow> 1 \<le> rowIndex c"
  by (auto simp: subPathRule_def)

lemma extendPathsRule_row: "extendPathsRule t c \<Longrightarrow> 1 \<le> rowIndex c"
  by (auto simp: extendPathsRule_def)

lemma extendMainRule_row: "extendMainRule l t c \<Longrightarrow> 1 \<le> rowIndex c"
  by (auto simp: extendMainRule_def)

lemma scanNeighbours_carved: "carved s (finalState (scanNeighbours rule adj acc s))"
  by (rule sameButCounts_carved [OF scanNeighbours_same])

lemma scanMainNeighbours_carved: "carved s (finalState (scanMainNeighbours cur adj acc s))"
  by (rule sameButCounts_carved [OF scanMainNeighbours_same])

lemma makeSubPathStep_carved: "carved s (finalState (makeSubPathStep p s))"
proof (cases "\<exists>cur. currentBlock s = Some cur \<and> cur < length (heap s) \<and> p < length (pathHeap s)")
  case False
  then show ?thesis by (auto simp: makeSubPathStep_def split: option.splits)
next
  case True
  then obtain cur where cur: "currentBlock s = Some cur" "cur < length (heap s)"
    "p < length (pathHeap s)" by blast
  have eq: "makeSubPathStep p s
      = andThen (scanNeighbours subPathRule (adjacentBlocks (heap s ! cur)) [] s)
          (subPathAdvance p cur)"
    using cur by (simp add: makeSubPathStep_def)
  show ?thesis
    unfolding eq
  proof (rule carved_andThen [OF scanNeighbours_carved])
    fix cands t
    assume "scanNeighbours subPathRule (adjacentBlocks (heap s ! cur)) [] s = Ok cands t"
    from accepted_rows [OF this subPathRule_row]
    show "carved t (finalState (subPathAdvance p cur cands t))"
      by (rule subPathAdvance_carved)
  qed
qed

lemma makeSubPathLoop_carved: "carved s (finalState (makeSubPathLoop p s))"
proof (induction p s rule: makeSubPathLoop.induct)
  case (1 p s)
  show ?case
  proof (cases "makeSubPathStep p s")
    case (Threw e t)
    with makeSubPathStep_carved [of s p] show ?thesis by (subst makeSubPathLoop.simps) simp
  next
    case (Ok c t)
    with makeSubPathStep_carved [of s p] have st: "carved s t" by simp
    show ?thesis
    proof (cases c)
      case True
      with "1.IH" [OF Ok] Ok st show ?thesis
        by (subst makeSubPathLoop.simps) (auto intro: carved_trans)
    next
      case False
      with Ok st show ?thesis by (subst makeSubPathLoop.simps) simp
    qed
  qed
qed

lemma carved_pushSubPath_ref: "b \<in> refs s \<Longrightarrow> carved s (pushSubPath p b s)"
  unfolding carved_def pushSubPath_def updPath_def refs_def
  by (auto simp: seedsOf_def good_def nth_update dest!: set_update_cases split: seeds.splits)

lemma carved_refs: "carved s t \<Longrightarrow> b \<in> refs s \<Longrightarrow> good s b \<or> b \<in> refs s"
  by simp

lemma makeSubPath_carved:
  assumes "b \<in> refs s \<or> good s b"
  shows "carved s (finalState (makeSubPath b s))"
proof -
  define p where "p = length (pathHeap s)"
  define s1 where "s1 = snd (allocPath s)"
  define s2 where "s2 = snd (randomFloor (numberOfRowBlocks s1 * 2) s1)"
  define d where "d = fst (randomFloor (numberOfRowBlocks s1 * 2) s1)"
  define s3 where "s3 = updPath p (\<lambda>q. q\<lparr>distance := d\<rparr>) s2"
  define s4 where "s4 = (pushSubPath p b s3)\<lparr>currentBlock := Some b\<rparr>"
  have eq: "makeSubPath b s = makeSubPathLoop p s4"
    by (simp add: makeSubPath_def allocPath_def p_def s1_def s2_def s3_def s4_def d_def
        split: prod.splits)
  have 1: "carved s s1" unfolding s1_def by (rule carved_allocPath)
  have 2: "carved s1 s2" unfolding s2_def by (rule carved_randomFloor)
  have 3: "carved s2 s3" unfolding s3_def by (rule carved_setDistance)
  have 13: "carved s s3" by (rule carved_trans [OF carved_trans [OF 1 2] 3])
  have "b \<in> refs s3 \<or> good s3 b"
  proof -
    from assms show ?thesis
    proof
      assume "good s b"
      then show ?thesis using carved_good [OF 13] by simp
    next
      assume r: "b \<in> refs s"
      have "refs s \<subseteq> refs s3"
        by (auto simp: refs_def s3_def s2_def s1_def allocPath_def randomFloor_def updPath_def
            seedsOf_def p_def split: seeds.splits)
      with r show ?thesis by auto
    qed
  qed
  then have "carved s3 (pushSubPath p b s3)"
    using carved_pushSubPath carved_pushSubPath_ref by blast
  then have 4: "carved s3 s4"
    unfolding s4_def by (rule carved_trans [OF _ carved_misc(2)])
  show ?thesis
    unfolding eq
    by (rule carved_trans [OF carved_trans [OF 13 4] makeSubPathLoop_carved])
qed

lemma seedsOf_refs: "i < length (seedsOf s) \<Longrightarrow> seedsOf s ! i \<in> refs s"
  by (simp add: refs_def)

lemma growSeeds_carved: "carved s (finalState (growSeeds i s))"
proof (induction i s rule: growSeeds.induct)
  case (1 i s)
  show ?case
  proof (cases "i < length (seedsOf s)")
    case False
    then show ?thesis by (subst growSeeds.simps) simp
  next
    case True
    have c: "carved s (finalState (makeSubPath (seedsOf s ! i) s))"
      by (rule makeSubPath_carved) (simp add: seedsOf_refs [OF True])
    show ?thesis
    proof (cases "makeSubPath (seedsOf s ! i) s")
      case (Threw e t)
      with c True show ?thesis by (subst growSeeds.simps) simp
    next
      case (Ok u t)
      with c have "carved s t" by simp
      with "1.IH" [OF True Ok] True Ok show ?thesis
        by (subst growSeeds.simps) (auto intro: carved_trans)
    qed
  qed
qed


subsection \<open>extendPaths\<close>

lemma extendPathsGrow_carved:
  assumes "\<forall>c\<in>set cands. c < length (heap s) \<and> 1 \<le> rowIndex (heap s ! c)"
  shows "carved s (snd (extendPathsGrow p latest cands s))"
proof (cases "cands = []")
  case True
  then show ?thesis by (simp add: extendPathsGrow_def)
next
  case False
  from pickNext_cases [OF False, of s] obtain c where c: "c \<in> set cands"
    and pk: "pickNext cands s = (c, s\<lparr>rndUsed := rndUsed s + 1\<rparr>)" by blast
  from c assms have cv: "c < length (heap s)" "1 \<le> rowIndex (heap s ! c)" by auto
  define t0 where "t0 = pushSubPath p c (setFloor c (s\<lparr>rndUsed := rndUsed s + 1\<rparr>))"
  define t1 where "t1 = snd (randomFloor 9 t0)"
  have g: "good (setFloor c (s\<lparr>rndUsed := rndUsed s + 1\<rparr>)) c"
    using cv by (simp add: good_def setFloor_def updBlock_def)
  have 0: "carved s t0"
    unfolding t0_def
    by (rule carved_trans [OF _ carved_pushSubPath [OF g]], rule carved_trans [OF _ carved_setFloor],
        rule carved_misc)
  have g0: "good t0 c" using carved_good [OF carved_pushSubPath [OF g] g] by (simp add: t0_def)
  have 1: "carved t0 t1" unfolding t1_def by (rule carved_randomFloor)
  have g1: "good t1 c" by (rule carved_good [OF 1 g0])
  have 2: "carved s t1" by (rule carved_trans [OF 0 1])
  have 3: "carved s (t1\<lparr>secondSeeds := secondSeeds t1 @ [c]\<rparr>)"
    by (rule carved_trans [OF 2 carved_secondSeed [OF g1]])
  have "snd (extendPathsGrow p latest cands s) = t1
        \<or> snd (extendPathsGrow p latest cands s) = t1\<lparr>secondSeeds := secondSeeds t1 @ [c]\<rparr>"
    using False pk by (simp add: extendPathsGrow_def t1_def t0_def split: prod.splits)
  with 2 3 show ?thesis by auto
qed

lemma extendPathsDecide_carved: "carved s (finalState (extendPathsDecide p latest nb cands s))"
  by (auto simp: extendPathsDecide_def carved_misc split: option.splits)

lemma extendPathsAdvance_carved:
  assumes "\<forall>c\<in>set cands. c < length (heap s) \<and> 1 \<le> rowIndex (heap s ! c)"
  shows "carved s (finalState (extendPathsAdvance p latest nb cands s))"
  using extendPathsGrow_carved [OF assms, of p latest] extendPathsDecide_carved
  by (auto simp: extendPathsAdvance_def split: prod.splits intro: carved_trans)

lemma extendPathsStep_carved: "carved s (finalState (extendPathsStep p latest s))"
proof (cases "latest < length (heap s) \<and> p < length (pathHeap s)")
  case False
  then show ?thesis by (auto simp: extendPathsStep_def)
next
  case True
  let ?adj = "adjacentBlocks (heap s ! latest)"
  have eq: "extendPathsStep p latest s
      = andThen (scanNeighbours extendPathsRule ?adj [] s)
          (extendPathsAdvance p latest (if ?adj = [] then None else last ?adj))"
    using True by (simp add: extendPathsStep_def)
  show ?thesis
    unfolding eq
  proof (rule carved_andThen [OF scanNeighbours_carved])
    fix cands t
    assume "scanNeighbours extendPathsRule ?adj [] s = Ok cands t"
    from accepted_rows [OF this extendPathsRule_row]
    show "carved t (finalState (extendPathsAdvance p latest
            (if ?adj = [] then None else last ?adj) cands t))"
      by (rule extendPathsAdvance_carved)
  qed
qed

lemma extendPathsLoop_carved: "carved s (finalState (extendPathsLoop p latest s))"
proof (induction p latest s rule: extendPathsLoop.induct)
  case (1 p latest s)
  show ?case
  proof (cases "extendPathsStep p latest s")
    case (Threw e t)
    with extendPathsStep_carved [of s p latest] show ?thesis by (subst extendPathsLoop.simps) simp
  next
    case (Ok r t)
    with extendPathsStep_carved [of s p latest] have st: "carved s t" by simp
    obtain c l where r: "r = (c, l)" by (cases r)
    show ?thesis
    proof (cases c)
      case True
      with "1.IH" [OF Ok r [symmetric]] Ok r st show ?thesis
        by (subst extendPathsLoop.simps) (auto intro: carved_trans)
    next
      case False
      with Ok r st show ?thesis by (subst extendPathsLoop.simps) simp
    qed
  qed
qed

lemma getAdjacentBlocks_carved: "carved s (finalState (getAdjacentBlocks b s))"
  by (auto simp: getAdjacentBlocks_def Let_def carved_adjacent split: option.splits)

lemma extendPaths_carved: "carved s (finalState (extendPaths p s))"
proof (cases "at (pathHeap s) p")
  case None
  then show ?thesis by (simp add: extendPaths_def)
next
  case (Some q)
  show ?thesis
  proof (cases "subPath q = []")
    case True
    with Some show ?thesis by (simp add: extendPaths_def)
  next
    case False
    have eq: "extendPaths p s = andThen (getAdjacentBlocks (last (subPath q)) s)
        (\<lambda>u. extendPathsLoop p (last (subPath q)))"
      using Some False by (simp add: extendPaths_def)
    show ?thesis
      unfolding eq
      by (rule carved_andThen [OF getAdjacentBlocks_carved]) (rule extendPathsLoop_carved)
  qed
qed

lemma extendAndCheck_carved: "carved s (finalState (extendAndCheck p s))"
  unfolding extendAndCheck_def
  by (rule carved_andThen [OF extendPaths_carved]) (simp add: carved_misc)

subsection \<open>extendMainPath\<close>

lemma extendMainGrow_eq:
  assumes "pickNext cands s = (c, s')" "cands \<noteq> []"
  shows "extendMainGrow latest cands s =
      (case mainPath s' of
         None \<Rightarrow> Threw TypeError (setFloor c s')
       | Some m \<Rightarrow>
           if m < length (pathHeap s')
           then Ok c (updPath m (\<lambda>q. q\<lparr>subPath := drop 1 (subPath q @ [c])\<rparr>) (setFloor c s'))
           else Threw TypeError (setFloor c s'))"
  using assms by (simp add: extendMainGrow_def)

lemma extendMainGrow_carved:
  assumes "\<forall>c\<in>set cands. c < length (heap s) \<and> 1 \<le> rowIndex (heap s ! c)"
  shows "carved s (finalState (extendMainGrow latest cands s))"
    and "extendMainGrow latest cands s = Ok l t \<Longrightarrow> cands \<noteq> [] \<Longrightarrow> good t l"
proof -
  show "carved s (finalState (extendMainGrow latest cands s))"
  proof (cases "cands = []")
    case True
    then show ?thesis by (simp add: extendMainGrow_def)
  next
    case False
    from pickNext_cases [OF False, of s] obtain c where c: "c \<in> set cands"
      and pk: "pickNext cands s = (c, s\<lparr>rndUsed := rndUsed s + 1\<rparr>)" by blast
    from c assms have cv: "c < length (heap s)" "1 \<le> rowIndex (heap s ! c)" by auto
    define t0 where "t0 = setFloor c (s\<lparr>rndUsed := rndUsed s + 1\<rparr>)"
    have g: "good t0 c" using cv by (simp add: t0_def good_def setFloor_def updBlock_def)
    have 0: "carved s t0"
      unfolding t0_def by (rule carved_trans [OF carved_misc(1) carved_setFloor])
    have 1: "carved s (updPath m (\<lambda>q. q\<lparr>subPath := drop 1 (subPath q @ [c])\<rparr>) t0)" for m
      by (rule carved_trans [OF 0 carved_pushDrop [OF g]])
    show ?thesis
      unfolding extendMainGrow_eq [OF pk False] t0_def [symmetric]
      using 0 1 by (simp split: option.splits)
  qed
next
  assume ok: "extendMainGrow latest cands s = Ok l t" and ne: "cands \<noteq> []"
  from pickNext_cases [OF ne, of s] obtain c where c: "c \<in> set cands"
    and pk: "pickNext cands s = (c, s\<lparr>rndUsed := rndUsed s + 1\<rparr>)" by blast
  from c assms have cv: "c < length (heap s)" "1 \<le> rowIndex (heap s ! c)" by auto
  define t0 where "t0 = setFloor c (s\<lparr>rndUsed := rndUsed s + 1\<rparr>)"
  have g: "good t0 c" using cv by (simp add: t0_def good_def setFloor_def updBlock_def)
  have 1: "good (updPath m (\<lambda>q. q\<lparr>subPath := drop 1 (subPath q @ [c])\<rparr>) t0) c" for m
    by (rule carved_good [OF carved_pushDrop [OF g] g])
  from ok have "(case mainPath (s\<lparr>rndUsed := rndUsed s + 1\<rparr>) of
         None \<Rightarrow> Threw TypeError t0
       | Some m \<Rightarrow>
           if m < length (pathHeap (s\<lparr>rndUsed := rndUsed s + 1\<rparr>))
           then Ok c (updPath m (\<lambda>q. q\<lparr>subPath := drop 1 (subPath q @ [c])\<rparr>) t0)
           else Threw TypeError t0) = Ok l t"
    unfolding extendMainGrow_eq [OF pk ne] t0_def [symmetric] .
  then obtain m where "l = c" "t = updPath m (\<lambda>q. q\<lparr>subPath := drop 1 (subPath q @ [c])\<rparr>) t0"
    by (cases "mainPath (s\<lparr>rndUsed := rndUsed s + 1\<rparr>)") (auto split: if_splits)
  with 1 show "good t l" by simp
qed

lemma extendMainAdvance_carved:
  assumes "\<forall>c\<in>set cands. c < length (heap s) \<and> 1 \<le> rowIndex (heap s ! c)"
  shows "carved s (finalState (extendMainAdvance latest cands s))"
  unfolding extendMainAdvance_def
proof (rule carved_andThen [OF extendMainGrow_carved(1) [OF assms]])
  fix l t
  assume ok: "extendMainGrow latest cands s = Ok l t"
  show "carved t (finalState
          (if rowIndex (heap t ! l) = 1 \<or> cands = [] then Ok (False, l) t
           else case randomFloor 7 t of
                  (d, s2) \<Rightarrow> Ok (True, l) (if d < 1 then pushPathSeed l s2 else s2)))"
  proof (cases "rowIndex (heap t ! l) = 1 \<or> cands = []")
    case True
    then show ?thesis by auto
  next
    case False
    then have g: "good t l" using extendMainGrow_carved(2) [OF assms ok] by simp
    have 1: "carved t (snd (randomFloor 7 t))" by (rule carved_randomFloor)
    have "good (snd (randomFloor 7 t)) l" by (rule carved_good [OF 1 g])
    from carved_trans [OF 1 carved_pushPathSeed [OF this]] 1 False show ?thesis
      by (auto split: prod.splits)
  qed
qed

lemma extendMainStep_carved: "carved s (finalState (extendMainStep latest s))"
proof (cases "latest < length (heap s)")
  case False
  then show ?thesis by (simp add: extendMainStep_def)
next
  case True
  let ?adj = "adjacentBlocks (heap s ! latest)"
  have eq: "extendMainStep latest s
      = andThen (scanNeighbours (extendMainRule latest) ?adj [] s) (extendMainAdvance latest)"
    using True by (simp add: extendMainStep_def)
  show ?thesis
    unfolding eq
  proof (rule carved_andThen [OF scanNeighbours_carved])
    fix cands t
    assume "scanNeighbours (extendMainRule latest) ?adj [] s = Ok cands t"
    from accepted_rows [OF this extendMainRule_row]
    show "carved t (finalState (extendMainAdvance latest cands t))"
      by (rule extendMainAdvance_carved)
  qed
qed

lemma extendMainLoop_carved: "carved s (finalState (extendMainLoop latest s))"
proof (induction latest s rule: extendMainLoop.induct)
  case (1 latest s)
  show ?case
  proof (cases "extendMainStep latest s")
    case (Threw e t)
    with extendMainStep_carved [of s latest] show ?thesis by (subst extendMainLoop.simps) simp
  next
    case (Ok r t)
    with extendMainStep_carved [of s latest] have st: "carved s t" by simp
    obtain c l where r: "r = (c, l)" by (cases r)
    show ?thesis
    proof (cases c)
      case True
      with "1.IH" [OF Ok r [symmetric]] Ok r st show ?thesis
        by (subst extendMainLoop.simps) (auto intro: carved_trans)
    next
      case False
      with Ok r st show ?thesis by (subst extendMainLoop.simps) simp
    qed
  qed
qed

lemma extendMainPath_carved: "carved s (finalState (extendMainPath s))"
  by (auto simp: extendMainPath_def extendMainLoop_carved split: option.splits)

lemma prunePaths_carved: "carved s (prunePaths s)"
  unfolding prunePaths_def by (rule carved_trans [OF carved_splicePaths carved_misc(4)])

lemma shiftBranches_carved: "carved s (finalState (shiftBranches s))"
  unfolding shiftBranches_def
proof (rule carved_andThen [OF growSeeds_carved])
  fix u s1
  show "carved s1 (finalState
          (andThen (forEach (drop 1 (paths s1)) extendAndCheck (s1\<lparr>pathSeeds := Own []\<rparr>))
             (\<lambda>u s2. andThen (growSeeds 0 (s2\<lparr>pathSeeds := SameAsSecondSeeds\<rparr>))
                        (\<lambda>u s3. Ok () (s3\<lparr>pathSeeds := Own [], secondSeeds := []\<rparr>)))))"
  proof (rule carved_andThen)
    show "carved s1 (finalState (forEach (drop 1 (paths s1)) extendAndCheck
            (s1\<lparr>pathSeeds := Own []\<rparr>)))"
      by (rule carved_trans [OF carved_seeds(2)], rule carved_forEach)
        (rule extendAndCheck_carved)
  next
    fix u s2
    show "carved s2 (finalState
            (andThen (growSeeds 0 (s2\<lparr>pathSeeds := SameAsSecondSeeds\<rparr>))
               (\<lambda>u s3. Ok () (s3\<lparr>pathSeeds := Own [], secondSeeds := []\<rparr>))))"
    proof (rule carved_andThen)
      show "carved s2 (finalState (growSeeds 0 (s2\<lparr>pathSeeds := SameAsSecondSeeds\<rparr>)))"
        by (rule carved_trans [OF carved_seeds(1) growSeeds_carved])
    next
      fix u s3
      have "carved s3 (s3\<lparr>pathSeeds := Own []\<rparr>)" by (rule carved_seeds)
      from carved_trans [OF this carved_seeds(3)]
      show "carved s3 (finalState (Ok () (s3\<lparr>pathSeeds := Own [], secondSeeds := []\<rparr>)))"
        by simp
    qed
  qed
qed

lemma shiftPaths_carved: "carved s (finalState (shiftPaths s))"
  unfolding shiftPaths_def
  by (rule carved_trans [OF prunePaths_carved],
      rule carved_andThen [OF extendMainPath_carved], rule shiftBranches_carved)


subsection \<open>makePath\<close>

lemma mainAccepted_rows:
  assumes scan: "scanMainNeighbours cur adj [] s = Ok cands t"
  shows "\<forall>c\<in>set cands. c < length (heap t) \<and> 1 \<le> rowIndex (heap t ! c)"
proof
  fix c assume "c \<in> set cands"
  have st: "sameButCounts s t"
    using scanMainNeighbours_same [of s cur adj "[]"] scan by simp
  from scanMainNeighbours_accepted [OF scan \<open>c \<in> set cands\<close>]
  obtain u where u: "c < length (heap s)" "sameButCounts s u" "makePathRule cur u (heap u ! c)"
    by auto
  then have "1 \<le> rowIndex (heap s ! c)"
    using sameButCounts_fields [OF u(2) u(1)] by (simp add: makePathRule_def)
  then show "c < length (heap t) \<and> 1 \<le> rowIndex (heap t ! c)"
    using sameButCounts_fields [OF st u(1)] sameButCounts_length [OF st] u(1) by simp
qed

lemma makePathAdvance_eq:
  assumes "pickNext cands s = (c, s1)" "\<not> (rowIndex (heap s ! cur) = 1 \<or> cands = [])"
  shows "makePathAdvance cur cands s =
      (case mainPath s1 of
         None \<Rightarrow> Threw TypeError (setFloor c (s1\<lparr>currentBlock := Some c\<rparr>))
       | Some m \<Rightarrow>
           if m < length (pathHeap s1)
           then (case randomFloor 21 (pushSubPath m c (setFloor c (s1\<lparr>currentBlock := Some c\<rparr>))) of
                   (d, s'') \<Rightarrow> Ok True (if d < 4 then pushPathSeed c s'' else s''))
           else Threw TypeError (setFloor c (s1\<lparr>currentBlock := Some c\<rparr>)))"
  using assms by (simp add: makePathAdvance_def)

lemma makePathAdvance_carved:
  assumes "\<forall>c\<in>set cands. c < length (heap s) \<and> 1 \<le> rowIndex (heap s ! c)"
  shows "carved s (finalState (makePathAdvance cur cands s))"
proof (cases "rowIndex (heap s ! cur) = 1 \<or> cands = []")
  case True
  then show ?thesis by (auto simp: makePathAdvance_def)
next
  case False
  then have ne: "cands \<noteq> []" by simp
  define s1 where "s1 = s\<lparr>rndUsed := rndUsed s + 1\<rparr>"
  from pickNext_cases [OF ne, of s] obtain c where c: "c \<in> set cands"
    and pk: "pickNext cands s = (c, s1)" unfolding s1_def by blast
  from c assms have cv: "c < length (heap s)" "1 \<le> rowIndex (heap s ! c)" by auto
  define t0 where "t0 = setFloor c (s1\<lparr>currentBlock := Some c\<rparr>)"
  have g: "good t0 c"
    using cv by (simp add: t0_def s1_def good_def setFloor_def updBlock_def)
  have 0: "carved s t0"
    unfolding t0_def s1_def
    by (rule carved_trans [OF _ carved_setFloor], rule carved_trans [OF carved_misc(1) carved_misc(2)])
  have step: "carved s (finalState (case randomFloor 21 (pushSubPath m c t0) of
                   (d, s'') \<Rightarrow> Ok True (if d < 4 then pushPathSeed c s'' else s'')))" for m
  proof -
    define t1 where "t1 = pushSubPath m c t0"
    have 1: "carved t0 t1" unfolding t1_def by (rule carved_pushSubPath [OF g])
    have g1: "good t1 c" by (rule carved_good [OF 1 g])
    have 2: "carved t1 (snd (randomFloor 21 t1))" by (rule carved_randomFloor)
    have g2: "good (snd (randomFloor 21 t1)) c" by (rule carved_good [OF 2 g1])
    have 3: "carved t1 (pushPathSeed c (snd (randomFloor 21 t1)))"
      by (rule carved_trans [OF 2 carved_pushPathSeed [OF g2]])
    from 2 3 have "carved t1 (finalState (case randomFloor 21 t1 of
                   (d, s'') \<Rightarrow> Ok True (if d < 4 then pushPathSeed c s'' else s'')))"
      by (auto split: prod.splits)
    with 0 1 show ?thesis unfolding t1_def by (blast intro: carved_trans)
  qed
  show ?thesis
    unfolding makePathAdvance_eq [OF pk False] t0_def [symmetric]
    using 0 step by (simp split: option.splits)
qed

lemma makePathStep_carved: "carved s (finalState (makePathStep s))"
proof (cases "\<exists>cur. currentBlock s = Some cur \<and> cur < length (heap s)")
  case False
  then show ?thesis by (auto simp: makePathStep_def split: option.splits)
next
  case True
  then obtain cur where cur: "currentBlock s = Some cur" "cur < length (heap s)" by blast
  have eq: "makePathStep s
      = andThen (scanMainNeighbours cur (adjacentBlocks (heap s ! cur)) [] s)
          (makePathAdvance cur)"
    using cur by (simp add: makePathStep_def)
  show ?thesis
    unfolding eq
  proof (rule carved_andThen [OF scanMainNeighbours_carved])
    fix cands t
    assume "scanMainNeighbours cur (adjacentBlocks (heap s ! cur)) [] s = Ok cands t"
    from mainAccepted_rows [OF this]
    show "carved t (finalState (makePathAdvance cur cands t))"
      by (rule makePathAdvance_carved)
  qed
qed

lemma makePathLoop_carved: "carved s (finalState (makePathLoop s))"
proof (induction s rule: makePathLoop.induct)
  case (1 s)
  show ?case
  proof (cases "makePathStep s")
    case (Threw e t)
    with makePathStep_carved [of s] show ?thesis by (subst makePathLoop.simps) simp
  next
    case (Ok c t)
    with makePathStep_carved [of s] have st: "carved s t" by simp
    show ?thesis
    proof (cases c)
      case True
      with "1.IH" [OF Ok] Ok st show ?thesis
        by (subst makePathLoop.simps) (auto intro: carved_trans)
    next
      case False
      with Ok st show ?thesis by (subst makePathLoop.simps) simp
    qed
  qed
qed

lemma makePathBranches_carved: "carved s (finalState (makePathBranches s))"
  unfolding makePathBranches_def
proof (rule carved_andThen [OF growSeeds_carved])
  fix u s1
  show "carved s1 (finalState
          (andThen (growSeeds 0 (s1\<lparr>pathSeeds := SameAsSecondSeeds\<rparr>))
             (\<lambda>u s2. Ok () ((splicePaths s2)
                \<lparr>pathSeeds := Own [], secondSeeds := [], pathsToSplice := []\<rparr>))))"
  proof (rule carved_andThen)
    show "carved s1 (finalState (growSeeds 0 (s1\<lparr>pathSeeds := SameAsSecondSeeds\<rparr>)))"
      by (rule carved_trans [OF carved_seeds(1) growSeeds_carved])
  next
    fix u s2
    have "carved s2 ((splicePaths s2)\<lparr>pathSeeds := Own []\<rparr>)"
      by (rule carved_trans [OF carved_splicePaths carved_seeds(2)])
    from carved_trans [OF carved_trans [OF this carved_seeds(3)] carved_misc(4)]
    show "carved s2 (finalState (Ok () ((splicePaths s2)
            \<lparr>pathSeeds := Own [], secondSeeds := [], pathsToSplice := []\<rparr>)))"
      by simp
  qed
qed

text \<open>The first two blocks of the main path are good when the blocks of the two bottom
  rows carry a row index of at least 1.\<close>

lemma firstBlocks_carved:
  assumes "\<And>blocks b. row = Some blocks \<Longrightarrow> b \<in> set blocks \<Longrightarrow> b < length (heap s)
             \<Longrightarrow> 1 \<le> rowIndex (heap s ! b)"
  shows "carved s (finalState (firstBlocks m row k s))"
proof (cases row)
  case None
  then show ?thesis by (simp add: firstBlocks_def carved_misc)
next
  case (Some blocks)
  show ?thesis
  proof (cases "at blocks k")
    case None
    with Some show ?thesis
      using carved_trans [OF carved_misc(3) carved_misc(2)]
      by (simp add: firstBlocks_def)
  next
    case b: (Some b)
    then have mem: "b \<in> set blocks" by (auto simp: at_def split: if_splits)
    define t where "t = s\<lparr>currentRow := row, currentBlock := Some b\<rparr>"
    have 0: "carved s t" unfolding t_def by (rule carved_trans [OF carved_misc(3) carved_misc(2)])
    show ?thesis
    proof (cases "b < length (heap s)")
      case False
      with Some b 0 show ?thesis by (simp add: firstBlocks_def t_def)
    next
      case True
      from assms [OF Some mem True] True have "good (setFloor b t) b"
        by (simp add: good_def setFloor_def updBlock_def t_def)
      from carved_pushSubPath [OF this, of m]
      have "carved s (pushSubPath m b (setFloor b t))"
        using 0 carved_setFloor [of t b] by (blast intro: carved_trans)
      with Some b True show ?thesis by (simp add: firstBlocks_def t_def)
    qed
  qed
qed

definition lowRows :: "engine \<Rightarrow> bool" where
  "lowRows s \<longleftrightarrow>
     (\<forall>d blocks b. (d = 1 \<or> d = 2) \<longrightarrow> rowFromEnd d s = Some blocks \<longrightarrow> b \<in> set blocks
         \<longrightarrow> b < length (heap s) \<longrightarrow> 1 \<le> rowIndex (heap s ! b))"

lemma carved_lowRows: "carved s t \<Longrightarrow> lowRows s \<Longrightarrow> lowRows t"
  by (auto simp: lowRows_def carved_def rowFromEnd_def)

lemma makePathStart_carved:
  assumes "lowRows s"
  shows "carved s (finalState (makePathStart m s))"
proof (cases "rowFromEnd 1 s")
  case None
  then show ?thesis by (simp add: makePathStart_def carved_misc)
next
  case (Some blocks)
  define s0 where "s0 = s\<lparr>currentRow := Some blocks\<rparr>"
  define k where "k = fst (randomBlockIndex (length blocks) s0)"
  define s1 where "s1 = snd (randomBlockIndex (length blocks) s0)"
  have eq: "makePathStart m s
      = andThen (firstBlocks m (Some blocks) k s1) (\<lambda>u s2. firstBlocks m (rowFromEnd 2 s2) k s2)"
    using Some by (simp add: makePathStart_def s0_def k_def s1_def split: prod.splits)
  have 0: "carved s s0" unfolding s0_def by (rule carved_misc)
  have "carved s0 s1"
    unfolding s1_def
    by (auto simp: randomBlockIndex_def randomFloor_def carved_misc split: prod.splits)
  with 0 have 1: "carved s s1" by (rule carved_trans)
  have l1: "lowRows s1" by (rule carved_lowRows [OF 1 assms])
  have "maze s1 = maze s" using 1 by (simp add: carved_def)
  then have r1: "rowFromEnd 1 s1 = Some blocks"
    using Some by (auto simp: rowFromEnd_def split: if_splits)
  show ?thesis
    unfolding eq
  proof (rule carved_trans [OF 1], rule carved_andThen)
    show "carved s1 (finalState (firstBlocks m (Some blocks) k s1))"
      by (rule firstBlocks_carved) (use l1 r1 in \<open>auto simp: lowRows_def\<close>)
  next
    fix u s2
    assume "firstBlocks m (Some blocks) k s1 = Ok u s2"
    then have "carved s1 s2"
      using firstBlocks_carved [of "Some blocks" s1 m k] l1 r1
      by (auto simp: lowRows_def)
    then have "lowRows s2" using l1 by (rule carved_lowRows)
    then show "carved s2 (finalState (firstBlocks m (rowFromEnd 2 s2) k s2))"
      by (intro firstBlocks_carved) (auto simp: lowRows_def)
  qed
qed

text \<open>makePath assigns \<open>mainPath\<close>; apart from that assignment it is a sequence of steps
  as above.\<close>

lemma makePathHead_carved:
  assumes "lowRows s"
  shows "carved (s\<lparr>mainPath := Some (length (pathHeap s))\<rparr>) (finalState (makePathHead s))"
proof -
  define m where "m = length (pathHeap s)"
  define s0 where "s0 = s\<lparr>mainPath := Some m\<rparr>"
  define a1 where "a1 = snd (allocPath s)"
  define s1 where "s1 = a1\<lparr>mainPath := Some m\<rparr>"
  define s2 where "s2 = (updPath m (\<lambda>q. q\<lparr>distance := numberOfRowBlocks a1 * 20\<rparr>) s1)
                          \<lparr>pathSeeds := Own []\<rparr>"
  have eq: "makePathHead s = makePathStart m s2"
    unfolding s2_def s1_def a1_def m_def by (simp add: makePathHead_def allocPath_def)
  have "s1 = snd (allocPath s0)"
    by (simp add: s1_def a1_def s0_def allocPath_def)
  then have 1: "carved s0 s1" using carved_allocPath [of s0] by simp
  have 2: "carved s1 s2"
    unfolding s2_def by (rule carved_trans [OF carved_setDistance carved_seeds(2)])
  have l0: "lowRows s0" using assms by (simp add: lowRows_def s0_def rowFromEnd_def)
  have l2: "lowRows s2" by (rule carved_lowRows [OF carved_trans [OF 1 2] l0])
  show ?thesis
    unfolding eq m_def [symmetric] s0_def [symmetric]
    by (rule carved_trans [OF carved_trans [OF 1 2] makePathStart_carved [OF l2]])
qed

lemma makePath_carved:
  assumes "lowRows s"
  shows "carved (s\<lparr>mainPath := Some (length (pathHeap s))\<rparr>) (finalState (makePath s))"
  unfolding makePath_def
proof (rule carved_andThen [OF makePathHead_carved [OF assms]])
  fix u s1
  show "carved s1 (finalState (andThen (makePathLoop s1) (\<lambda>u. makePathBranches)))"
    by (rule carved_andThen [OF makePathLoop_carved]) (rule makePathBranches_carved)
qed

section \<open>The grid\<close>

text \<open>
  What the functions that build and shift the grid respect: paths, seeds and character
  stay as they are; blocks are added to the store, and a block already there keeps its
  wall flag and its column while its row index may grow.
\<close>

definition regrid :: "engine \<Rightarrow> engine \<Rightarrow> bool" where
  "regrid s s' \<longleftrightarrow>
     pathHeap s' = pathHeap s \<and> paths s' = paths s \<and> pathSeeds s' = pathSeeds s
     \<and> secondSeeds s' = secondSeeds s \<and> pathsToSplice s' = pathsToSplice s
     \<and> mainPath s' = mainPath s \<and> character s' = character s \<and> rnd s' = rnd s
     \<and> rndUsed s' = rndUsed s
     \<and> numberOfRowBlocks s' = numberOfRowBlocks s \<and> pointGrid s' = pointGrid s
     \<and> length (heap s) \<le> length (heap s')
     \<and> (\<forall>b<length (heap s).
           isWall (heap s' ! b) = isWall (heap s ! b)
           \<and> blockIndex (heap s' ! b) = blockIndex (heap s ! b)
           \<and> rowIndex (heap s ! b) \<le> rowIndex (heap s' ! b))"

lemma regrid_refl [simp]: "regrid s s"
  by (simp add: regrid_def)

lemma regrid_trans:
  assumes "regrid s t" "regrid t u"
  shows "regrid s u"
proof -
  have "\<forall>b<length (heap s).
           isWall (heap u ! b) = isWall (heap s ! b)
           \<and> blockIndex (heap u ! b) = blockIndex (heap s ! b)
           \<and> rowIndex (heap s ! b) \<le> rowIndex (heap u ! b)"
  proof (intro allI impI)
    fix b assume b: "b < length (heap s)"
    then have bt: "b < length (heap t)" using assms(1) by (simp add: regrid_def)
    from b assms(1) have 1: "isWall (heap t ! b) = isWall (heap s ! b)"
      "blockIndex (heap t ! b) = blockIndex (heap s ! b)"
      "rowIndex (heap s ! b) \<le> rowIndex (heap t ! b)" by (simp_all add: regrid_def)
    from bt assms(2) have 2: "isWall (heap u ! b) = isWall (heap t ! b)"
      "blockIndex (heap u ! b) = blockIndex (heap t ! b)"
      "rowIndex (heap t ! b) \<le> rowIndex (heap u ! b)" by (simp_all add: regrid_def)
    from 1 2 show "isWall (heap u ! b) = isWall (heap s ! b)
           \<and> blockIndex (heap u ! b) = blockIndex (heap s ! b)
           \<and> rowIndex (heap s ! b) \<le> rowIndex (heap u ! b)" by simp
  qed
  then show ?thesis using assms by (simp add: regrid_def)
qed

lemma regrid_good: "regrid s s' \<Longrightarrow> good s b \<Longrightarrow> good s' b"
  by (auto simp: regrid_def good_def)

lemma regrid_sound:
  assumes "regrid s s'" "sound s"
  shows "sound s'"
proof -
  have "refs s' = refs s"
    using assms(1) by (simp add: refs_def regrid_def seedsOf_def split: seeds.splits)
  then have "\<forall>b\<in>refs s'. good s' b"
    using assms(2) regrid_good [OF assms(1)] by (auto simp: sound_def)
  moreover have "\<forall>p\<in>set (paths s'). p < length (pathHeap s')"
    using assms by (simp add: regrid_def sound_def)
  moreover have "\<forall>c. character s' = Some c \<longrightarrow> c < length (heap s') \<and> \<not> isWall (heap s' ! c)"
    using assms by (auto simp: regrid_def sound_def)
  ultimately show ?thesis by (simp add: sound_def)
qed

lemma regrid_andThen:
  assumes "regrid s (finalState r)"
    and "\<And>x t. r = Ok x t \<Longrightarrow> regrid t (finalState (f x t))"
  shows "regrid s (finalState (andThen r f))"
proof (rule andThen_rel [where R = regrid])
  show "\<And>a b c. regrid a b \<Longrightarrow> regrid b c \<Longrightarrow> regrid a c" by (rule regrid_trans)
qed (use assms in auto)

lemma regrid_forEach:
  assumes "\<And>x t. x \<in> set xs \<Longrightarrow> regrid t (finalState (f x t))"
  shows "regrid s (finalState (forEach xs f s))"
proof (rule forEach_rel [where R = regrid])
  show "\<And>a b c. regrid a b \<Longrightarrow> regrid b c \<Longrightarrow> regrid a c" by (rule regrid_trans)
qed (use assms in auto)

lemma regrid_maze: "regrid s (s\<lparr>maze := m\<rparr>)"
  by (simp add: regrid_def)

lemma regrid_clearAdjacent: "regrid s (finalState (clearAdjacent b s))"
  by (auto simp: regrid_def clearAdjacent_def updBlock_def nth_update)

lemma regrid_moveBlockDown: "regrid s (finalState (moveBlockDown b s))"
  by (auto simp: regrid_def moveBlockDown_def updBlock_def nth_update)

lemma regrid_getAdjacentBlocks: "regrid s (finalState (getAdjacentBlocks b s))"
  by (auto simp: regrid_def getAdjacentBlocks_def Let_def updBlock_def nth_update
      split: option.splits)

lemma regrid_resetRow: "regrid s (finalState (resetRow row s))"
  unfolding resetRow_def by (rule regrid_forEach) (rule regrid_getAdjacentBlocks)

lemma regrid_resetAdjacentBlocks: "regrid s (finalState (resetAdjacentBlocks s))"
  unfolding resetAdjacentBlocks_def by (rule regrid_forEach) (rule regrid_resetRow)

lemma regrid_placeBlock: "regrid s (finalState (placeBlock i p k s))"
  by (auto simp: regrid_def placeBlock_def allocBlock_def nth_append split: option.splits)

lemma regrid_shiftRows: "regrid s (finalState (shiftRows i s))"
proof (induction i arbitrary: s)
  case 0
  show ?case by simp
next
  case (Suc j)
  let ?t = "s\<lparr>maze := (maze s)[Suc j := maze s ! j]\<rparr>"
  have 1: "regrid s (finalState (forEach (maze s ! j) moveBlockDown ?t))"
    by (rule regrid_trans [OF regrid_maze], rule regrid_forEach) (rule regrid_moveBlockDown)
  show ?case
  proof (cases "forEach (maze s ! j) moveBlockDown ?t")
    case (Threw e t)
    with 1 show ?thesis by simp
  next
    case (Ok u t)
    with 1 Suc.IH [of t] show ?thesis by (auto intro: regrid_trans)
  qed
qed

lemma regrid_createNewRow: "regrid s (finalState (createNewRow s))"
proof (cases "at (pointGrid s) 0")
  case None
  then show ?thesis by (simp add: createNewRow_def regrid_maze)
next
  case (Some n0)
  show ?thesis
    unfolding createNewRow_def Some option.case
    by (rule regrid_andThen, rule regrid_trans [OF regrid_maze], rule regrid_forEach,
        rule regrid_placeBlock, rule regrid_resetAdjacentBlocks)
qed

lemma regrid_shiftGrid: "regrid s (finalState (shiftGrid s))"
proof (cases "rowFromEnd 1 s")
  case None
  then show ?thesis by (simp add: shiftGrid_def)
next
  case (Some blocks)
  show ?thesis
    unfolding shiftGrid_def Some option.case
  proof (rule regrid_andThen)
    show "regrid s (finalState (forEach blocks clearAdjacent s))"
      by (rule regrid_forEach) (rule regrid_clearAdjacent)
  next
    fix u s1
    show "regrid s1 (finalState (andThen (shiftRows (length (maze s1) - 1) s1)
            (\<lambda>u s2. andThen (createNewRow s2) (\<lambda>u. resetAdjacentBlocks))))"
      by (rule regrid_andThen [OF regrid_shiftRows], rule regrid_andThen [OF regrid_createNewRow],
          rule regrid_resetAdjacentBlocks)
  qed
qed


subsection \<open>The shape of the grid\<close>

definition gridShape :: "engine \<Rightarrow> bool" where
  "gridShape s \<longleftrightarrow>
     pointGrid s = replicate (3 * (numberOfRowBlocks s + 1)) (numberOfRowBlocks s + 1)
     \<and> length (maze s) = 3 * numberOfRowBlocks s + 1
     \<and> (\<forall>row\<in>set (maze s). length row = numberOfRowBlocks s - 1)"

text \<open>The blocks of row \<open>i\<close> of the maze carry a row index of at least \<open>i\<close>.\<close>

definition rowsIndexed :: "engine \<Rightarrow> bool" where
  "rowsIndexed s \<longleftrightarrow>
     (\<forall>i<length (maze s). \<forall>b\<in>set (maze s ! i). b < length (heap s) \<longrightarrow> i \<le> rowIndex (heap s ! b))"

lemma carved_gridShape: "carved s t \<Longrightarrow> gridShape s \<Longrightarrow> gridShape t"
  by (simp add: carved_def gridShape_def)

lemma regrid_gridShape: "regrid s t \<Longrightarrow> maze t = maze s \<Longrightarrow> gridShape s \<Longrightarrow> gridShape t"
  by (simp add: regrid_def gridShape_def)

lemma regrid_rowsIndexed:
  assumes "regrid s t" "maze t = maze s" "rowsIndexed s" "length (heap t) = length (heap s)"
  shows "rowsIndexed t"
  unfolding rowsIndexed_def
proof (intro allI impI ballI)
  fix i b assume i: "i < length (maze t)" and b: "b \<in> set (maze t ! i)" "b < length (heap t)"
  then have "i \<le> rowIndex (heap s ! b)" using assms by (auto simp: rowsIndexed_def)
  moreover have "rowIndex (heap s ! b) \<le> rowIndex (heap t ! b)"
    using assms(1,4) b by (simp add: regrid_def)
  ultimately show "i \<le> rowIndex (heap t ! b)" by simp
qed

text \<open>Functions that leave the rows of the maze and the size of the store as they are.\<close>

definition sameRows :: "engine \<Rightarrow> engine \<Rightarrow> bool" where
  "sameRows s t \<longleftrightarrow> maze t = maze s \<and> length (heap t) = length (heap s)"

lemma sameRows_forEach:
  assumes "\<And>x t. x \<in> set xs \<Longrightarrow> sameRows t (finalState (f x t))"
  shows "sameRows s (finalState (forEach xs f s))"
proof (rule forEach_rel [where R = sameRows])
  show "\<And>a b c. sameRows a b \<Longrightarrow> sameRows b c \<Longrightarrow> sameRows a c" by (simp add: sameRows_def)
  show "\<And>a. sameRows a a" by (simp add: sameRows_def)
qed (use assms in auto)

lemma sameRows_clearAdjacent: "sameRows s (finalState (clearAdjacent b s))"
  by (simp add: sameRows_def clearAdjacent_def updBlock_def)

lemma sameRows_moveBlockDown: "sameRows s (finalState (moveBlockDown b s))"
  by (simp add: sameRows_def moveBlockDown_def updBlock_def)

lemma sameRows_getAdjacentBlocks: "sameRows s (finalState (getAdjacentBlocks b s))"
  by (simp add: sameRows_def getAdjacentBlocks_def Let_def updBlock_def split: option.splits)

lemma sameRows_resetRow: "sameRows s (finalState (resetRow row s))"
  unfolding resetRow_def by (rule sameRows_forEach) (rule sameRows_getAdjacentBlocks)

lemma sameRows_resetAdjacentBlocks: "sameRows s (finalState (resetAdjacentBlocks s))"
  unfolding resetAdjacentBlocks_def by (rule sameRows_forEach) (rule sameRows_resetRow)

text \<open>Every block of row \<open>i\<close> carries the row index \<open>i\<close>: so it is in a maze that has
  just been built.\<close>

definition rowsExact :: "engine \<Rightarrow> bool" where
  "rowsExact s \<longleftrightarrow>
     (\<forall>(i, row)\<in>set (enumerate 0 (maze s)). \<forall>b\<in>set row. rowIndex (heap s ! b) = i)"

lemma rowsExact_row:
  assumes "rowsExact s" "i < length (maze s)" "b \<in> set (maze s ! i)"
  shows "rowIndex (heap s ! b) = i"
proof -
  have "(i, maze s ! i) \<in> set (enumerate 0 (maze s))"
    using assms(2) by (simp add: in_set_enumerate_eq)
  with assms(1,3) show ?thesis unfolding rowsExact_def by blast
qed

definition sameIndices :: "engine \<Rightarrow> engine \<Rightarrow> bool" where
  "sameIndices s t \<longleftrightarrow> maze t = maze s \<and> (\<forall>b. rowIndex (heap t ! b) = rowIndex (heap s ! b))"

lemma sameIndices_forEach:
  assumes "\<And>x t. x \<in> set xs \<Longrightarrow> sameIndices t (finalState (f x t))"
  shows "sameIndices s (finalState (forEach xs f s))"
proof (rule forEach_rel [where R = sameIndices])
  show "\<And>a b c. sameIndices a b \<Longrightarrow> sameIndices b c \<Longrightarrow> sameIndices a c"
    by (simp add: sameIndices_def)
  show "\<And>a. sameIndices a a" by (simp add: sameIndices_def)
qed (use assms in auto)

lemma sameIndices_getAdjacentBlocks: "sameIndices s (finalState (getAdjacentBlocks b s))"
  by (simp add: sameIndices_def getAdjacentBlocks_def Let_def updBlock_def nth_update
      split: option.splits)

lemma sameIndices_resetRow: "sameIndices s (finalState (resetRow row s))"
  unfolding resetRow_def by (rule sameIndices_forEach) (rule sameIndices_getAdjacentBlocks)

lemma sameIndices_rowsExact: "sameIndices s t \<Longrightarrow> rowsExact s \<Longrightarrow> rowsExact t"
  by (simp add: sameIndices_def rowsExact_def)

lemma at_replicate: "at (replicate r c) i = (if i < r then Some c else None)"
  by (simp add: at_def)

lemma forEach_append:
  "forEach (xs @ ys) f s = andThen (forEach xs f s) (\<lambda>u. forEach ys f)"
  by (induction xs arbitrary: s) (auto simp: andThen_def split: result.splits)

text \<open>Placing the first \<open>c\<close> blocks of row \<open>i\<close> over row \<open>p\<close> of a rectangular point grid.\<close>

definition placed :: "nat \<Rightarrow> nat \<Rightarrow> engine \<Rightarrow> engine \<Rightarrow> bool" where
  "placed i c s t \<longleftrightarrow>
     regrid s t \<and> length (maze t) = length (maze s)
     \<and> length (maze t ! i) = length (maze s ! i) + c
     \<and> (\<forall>j. j \<noteq> i \<longrightarrow> maze t ! j = maze s ! j)
     \<and> (\<forall>b\<in>set (maze t ! i).
           b \<in> set (maze s ! i) \<or> (b < length (heap t) \<and> rowIndex (heap t ! b) = i))
     \<and> (\<forall>b<length (heap s). heap t ! b = heap s ! b)"

lemma placeRow:
  assumes "pointGrid s = replicate r n0" "p + 1 < r" "c + 1 \<le> n0 \<or> c = 0" "i < length (maze s)"
  shows "\<exists>t. forEach [0..<c] (placeBlock i p) s = Ok () t \<and> placed i c s t"
  using assms(3)
proof (induction c)
  case 0
  show ?case by (simp add: placed_def)
next
  case (Suc c)
  then have "c + 1 \<le> n0 \<or> c = 0" by auto
  from Suc.IH [OF this] obtain t where
    t: "forEach [0..<c] (placeBlock i p) s = Ok () t" "placed i c s t" by blast
  have pg: "pointGrid t = replicate r n0" using t(2) assms(1) by (simp add: placed_def regrid_def)
  have it: "i < length (maze t)" using t(2) assms(4) by (simp add: placed_def)
  define u where "u = (snd (allocBlock i c t))
      \<lparr>maze := (maze (snd (allocBlock i c t)))[i := (maze (snd (allocBlock i c t)) ! i)
                   @ [length (heap t)]]\<rparr>"
  have pb: "placeBlock i p c t = Ok () u"
    using pg assms(2) Suc.prems
    by (simp add: placeBlock_def at_replicate u_def allocBlock_def)
  have "placed i (Suc c) s u"
    using t(2) it
    unfolding placed_def regrid_def u_def allocBlock_def
    by (auto simp: nth_append nth_update)
  with t(1) pb show ?case
    by (auto simp: forEach_append andThen_def)
qed


lemma makeMazeRow_built:
  assumes "pointGrid s = replicate r n0" "i + 1 < r" "length (maze s) = i"
  shows "\<exists>t row. makeMazeRow i s = Ok () t \<and> regrid s t \<and> maze t = maze s @ [row]
           \<and> length row = n0 - 2
           \<and> (\<forall>b\<in>set row. b < length (heap t) \<and> rowIndex (heap t ! b) = i)
           \<and> (\<forall>b<length (heap s). heap t ! b = heap s ! b)"
proof -
  define s0 where "s0 = s\<lparr>maze := maze s @ [[]]\<rparr>"
  have pg: "pointGrid s0 = replicate r n0" using assms(1) by (simp add: s0_def)
  have i0: "i < length (maze s0)" using assms(3) by (simp add: s0_def)
  have "n0 - 2 + 1 \<le> n0 \<or> n0 - 2 = 0" by arith
  from placeRow [OF pg assms(2) this i0] obtain t where
    t: "forEach [0..<n0 - 2] (placeBlock i i) s0 = Ok () t" "placed i (n0 - 2) s0 t" by blast
  have "pointGrid s ! i = n0" using assms(1,2) by simp
  then have run: "makeMazeRow i s = Ok () t" using t(1) by (simp add: makeMazeRow_def s0_def)
  have ni: "(maze s @ [[]]) ! i = []"
    using nth_append_length [of "maze s" "[]" "[]"] assms(3) by simp
  have len: "length (maze t) = Suc i" using t(2) assms(3) by (simp add: placed_def s0_def)
  have old: "\<forall>j<i. maze t ! j = maze s ! j"
    using t(2) assms(3) by (auto simp: placed_def s0_def nth_append)
  have mz: "maze t = maze s @ [maze t ! i]"
  proof (rule nth_equalityI)
    show "length (maze t) = length (maze s @ [maze t ! i])" using len assms(3) by simp
  next
    fix j assume "j < length (maze t)"
    then have "j < i \<or> j = i" using len by auto
    then show "maze t ! j = (maze s @ [maze t ! i]) ! j"
      using old assms(3) by (auto simp: nth_append)
  qed
  have rl: "length (maze t ! i) = n0 - 2"
    using t(2) ni by (simp add: placed_def s0_def)
  have rb: "\<forall>b\<in>set (maze t ! i). b < length (heap t) \<and> rowIndex (heap t ! b) = i"
    using t(2) ni by (auto simp: placed_def s0_def)
  have rg: "regrid s t"
    using t(2) by (auto simp: placed_def s0_def intro: regrid_trans [OF regrid_maze])
  have hp: "\<forall>b<length (heap s). heap t ! b = heap s ! b"
    using t(2) by (simp add: placed_def s0_def)
  from run rg mz rl rb hp show ?thesis by blast
qed

text \<open>The first loop of makeMaze, for the first \<open>k\<close> rows.\<close>

definition builtRows :: "nat \<Rightarrow> nat \<Rightarrow> engine \<Rightarrow> bool" where
  "builtRows k c t \<longleftrightarrow>
     length (maze t) = k \<and> (\<forall>row\<in>set (maze t). length row = c)
     \<and> (\<forall>i<k. \<forall>b\<in>set (maze t ! i). b < length (heap t) \<and> rowIndex (heap t ! b) = i)"

lemma makeMaze_rows:
  assumes "pointGrid s = replicate r n0" "maze s = []" "k + 2 \<le> r \<or> k = 0"
  shows "\<exists>t. forEach [0..<k] makeMazeRow s = Ok () t \<and> regrid s t \<and> builtRows k (n0 - 2) t"
  using assms(3)
proof (induction k)
  case 0
  show ?case using assms(2) by (simp add: builtRows_def)
next
  case (Suc k)
  then have "k + 2 \<le> r \<or> k = 0" by auto
  from Suc.IH [OF this] obtain t where
    t: "forEach [0..<k] makeMazeRow s = Ok () t" "regrid s t" "builtRows k (n0 - 2) t" by blast
  have pg: "pointGrid t = replicate r n0" using t(2) assms(1) by (simp add: regrid_def)
  have k1: "k + 1 < r" using Suc.prems by auto
  have lk: "length (maze t) = k" using t(3) by (simp add: builtRows_def)
  from makeMazeRow_built [OF pg k1 lk] obtain u row where
    u: "makeMazeRow k t = Ok () u" "regrid t u" "maze u = maze t @ [row]"
    "length row = n0 - 2" "\<forall>b\<in>set row. b < length (heap u) \<and> rowIndex (heap u ! b) = k"
    "\<forall>b<length (heap t). heap u ! b = heap t ! b" by blast
  have hl: "length (heap t) \<le> length (heap u)" using u(2) by (simp add: regrid_def)
  have uk: "maze u ! k = row" using u(3) nth_append_length [of "maze t" row "[]"] lk by simp
  have "builtRows (Suc k) (n0 - 2) u"
    unfolding builtRows_def
  proof (intro conjI allI impI ballI)
    show "length (maze u) = Suc k" using u(3) lk by simp
  next
    fix row' assume "row' \<in> set (maze u)"
    then show "length row' = n0 - 2" using u(3,4) t(3) by (auto simp: builtRows_def)
  next
    fix i b assume i: "i < Suc k" and b: "b \<in> set (maze u ! i)"
    show "b < length (heap u)"
    proof (cases "i = k")
      case True
      then show ?thesis using b u(5) uk by simp
    next
      case False
      with i have "i < k" by simp
      then have "b \<in> set (maze t ! i)" using b u(3) lk by (simp add: nth_append)
      then have "b < length (heap t)" using t(3) \<open>i < k\<close> by (simp add: builtRows_def)
      then show ?thesis using hl by simp
    qed
    show "rowIndex (heap u ! b) = i"
    proof (cases "i = k")
      case True
      then show ?thesis using b u(5) uk by simp
    next
      case False
      with i have ik: "i < k" by simp
      then have "b \<in> set (maze t ! i)" using b u(3) lk by (simp add: nth_append)
      then have "b < length (heap t)" "rowIndex (heap t ! b) = i"
        using t(3) ik by (auto simp: builtRows_def)
      then show ?thesis using u(6) by simp
    qed
  qed
  with t(1) u(1) regrid_trans [OF t(2) u(2)] show ?case
    by (auto simp: forEach_append andThen_def)
qed

lemma makeMaze_shape:
  assumes "pointGrid s = replicate (3 * (numberOfRowBlocks s + 1)) (numberOfRowBlocks s + 1)"
  shows "gridShape (finalState (makeMaze s))" "rowsIndexed (finalState (makeMaze s))"
    "regrid (s\<lparr>maze := []\<rparr>) (finalState (makeMaze s))"
    "rowsExact (finalState (makeMaze s))"
proof -
  define n where "n = numberOfRowBlocks s"
  define s0 where "s0 = s\<lparr>maze := []\<rparr>"
  have pg: "pointGrid s0 = replicate (3 * (n + 1)) (n + 1)"
    using assms by (simp add: s0_def n_def)
  have "3 * n + 1 + 2 \<le> 3 * (n + 1) \<or> 3 * n + 1 = 0" by simp
  from makeMaze_rows [OF pg _ this] obtain t where
    t: "forEach [0..<3 * n + 1] makeMazeRow s0 = Ok () t" "regrid s0 t"
    "builtRows (3 * n + 1) (n + 1 - 2) t" by (auto simp: s0_def)
  have eq: "makeMaze s = forEach (maze t) resetRow t"
    using t(1) assms by (simp add: makeMaze_def andThen_def s0_def n_def)
  define u where "u = finalState (forEach (maze t) resetRow t)"
  have 1: "regrid t u" unfolding u_def by (rule regrid_forEach) (rule regrid_resetRow)
  have 2: "sameRows t u" unfolding u_def by (rule sameRows_forEach) (rule sameRows_resetRow)
  have gt: "gridShape t"
    using t(2,3) pg by (auto simp: gridShape_def builtRows_def regrid_def n_def s0_def)
  have it: "rowsIndexed t" using t(3) by (auto simp: rowsIndexed_def builtRows_def)
  show "gridShape (finalState (makeMaze s))"
    unfolding eq u_def [symmetric] using regrid_gridShape [OF 1 _ gt] 2 by (simp add: sameRows_def)
  show "rowsIndexed (finalState (makeMaze s))"
    unfolding eq u_def [symmetric] using regrid_rowsIndexed [OF 1 _ it] 2
    by (simp add: sameRows_def)
  show "regrid (s\<lparr>maze := []\<rparr>) (finalState (makeMaze s))"
    unfolding eq u_def [symmetric] s0_def [symmetric] by (rule regrid_trans [OF t(2) 1])
  have "rowsExact t"
    using t(3) by (auto simp: rowsExact_def builtRows_def in_set_enumerate_eq)
  moreover have "sameIndices t u"
    unfolding u_def by (rule sameIndices_forEach) (rule sameIndices_resetRow)
  ultimately show "rowsExact (finalState (makeMaze s))"
    unfolding eq u_def [symmetric] by (rule sameIndices_rowsExact [rotated])
qed

lemma lowRows_built:
  assumes "gridShape s" "rowsIndexed s"
  shows "lowRows s"
  unfolding lowRows_def
proof (intro allI impI)
  fix d blocks b
  assume d: "d = 1 \<or> d = 2" and r: "rowFromEnd d s = Some blocks" and b: "b \<in> set blocks"
    and v: "b < length (heap s)"
  define n where "n = numberOfRowBlocks s"
  have len: "length (maze s) = 3 * n + 1" using assms(1) by (simp add: gridShape_def n_def)
  from r have dl: "d \<le> length (maze s)" and bl: "blocks = maze s ! (length (maze s) - d)"
    by (auto simp: rowFromEnd_def at_def split: if_splits)
  show "1 \<le> rowIndex (heap s ! b)"
  proof (cases "n = 0")
    case True
    with len d dl have "d = 1" by auto
    then have "blocks \<in> set (maze s)" using bl len by simp
    then have "length blocks = 0" using assms(1) True by (simp add: gridShape_def n_def)
    with b show ?thesis by simp
  next
    case False
    then have "1 \<le> length (maze s) - d" using len d by auto
    moreover have "length (maze s) - d < length (maze s)" using len d by auto
    ultimately show ?thesis
      using assms(2) b bl v unfolding rowsIndexed_def by fastforce
  qed
qed

subsection \<open>Shifting keeps the shape\<close>

lemma shiftRows_shape:
  assumes "i < length (maze s)" "\<forall>row\<in>set (maze s). length row = c"
  shows "length (maze (finalState (shiftRows i s))) = length (maze s)
         \<and> (\<forall>row\<in>set (maze (finalState (shiftRows i s))). length row = c)"
  using assms
proof (induction i arbitrary: s)
  case 0
  then show ?case by simp
next
  case (Suc j)
  define s0 where "s0 = s\<lparr>maze := (maze s)[Suc j := maze s ! j]\<rparr>"
  define t where "t = finalState (forEach (maze s ! j) moveBlockDown s0)"
  have "sameRows s0 t"
    unfolding t_def by (rule sameRows_forEach) (rule sameRows_moveBlockDown)
  then have mt: "maze t = (maze s)[Suc j := maze s ! j]" by (simp add: sameRows_def s0_def)
  have lt: "length (maze t) = length (maze s)" using mt by simp
  have "maze s ! j \<in> set (maze s)" using Suc.prems(1) by simp
  then have rt: "\<forall>row\<in>set (maze t). length row = c"
    using Suc.prems(2) mt set_update_subset_insert [of "maze s" "Suc j" "maze s ! j"] by auto
  show ?case
  proof (cases "forEach (maze s ! j) moveBlockDown s0")
    case (Threw e t')
    then have "t' = t" by (simp add: t_def)
    with Threw lt rt show ?thesis by (simp add: s0_def)
  next
    case (Ok u t')
    then have tt: "t' = t" by (simp add: t_def)
    have "j < length (maze t)" using lt Suc.prems(1) by simp
    from Suc.IH [OF this rt] Ok tt lt show ?thesis by (simp add: s0_def)
  qed
qed

lemma createNewRow_shape:
  assumes "gridShape s"
  shows "gridShape (finalState (createNewRow s))"
proof -
  define n where "n = numberOfRowBlocks s"
  define s0 where "s0 = s\<lparr>maze := (maze s)[0 := []]\<rparr>"
  have len: "length (maze s) = 3 * n + 1" and pgs: "pointGrid s = replicate (3 * (n + 1)) (n + 1)"
    and rows: "\<forall>row\<in>set (maze s). length row = n - 1"
    using assms by (simp_all add: gridShape_def n_def)
  have ne: "maze s \<noteq> []" using len by auto
  have pg: "pointGrid s0 = replicate (3 * (n + 1)) (n + 1)" using pgs by (simp add: s0_def)
  have i0: "0 < length (maze s0)" using len by (simp add: s0_def)
  have "n + 1 - 2 + 1 \<le> n + 1 \<or> n + 1 - 2 = 0" by arith
  from placeRow [OF pg _ this i0, of 0] obtain t where
    t: "forEach [0..<n + 1 - 2] (placeBlock 0 0) s0 = Ok () t" "placed 0 (n + 1 - 2) s0 t"
    by auto
  have eq: "createNewRow s = resetAdjacentBlocks t"
    using t(1) pgs ne by (simp add: createNewRow_def at_replicate andThen_def s0_def)
  have gt: "gridShape t"
    unfolding gridShape_def
  proof (intro conjI ballI)
    show "pointGrid t = replicate (3 * (numberOfRowBlocks t + 1)) (numberOfRowBlocks t + 1)"
      using t(2) pg by (simp add: placed_def regrid_def s0_def n_def)
    show "length (maze t) = 3 * numberOfRowBlocks t + 1"
      using t(2) len by (simp add: placed_def regrid_def s0_def n_def)
  next
    fix row assume "row \<in> set (maze t)"
    then obtain j where j: "j < length (maze t)" "row = maze t ! j"
      by (auto simp: in_set_conv_nth)
    have nt: "numberOfRowBlocks t = n" using t(2) by (simp add: placed_def regrid_def s0_def n_def)
    show "length row = numberOfRowBlocks t - 1"
    proof (cases "j = 0")
      case True
      with j t(2) ne show ?thesis by (simp add: placed_def s0_def nt)
    next
      case False
      then have "maze t ! j = maze s ! j" using t(2) by (simp add: placed_def s0_def)
      moreover have "j < length (maze s)" using j t(2) by (simp add: placed_def s0_def)
      ultimately show ?thesis using rows j nt by simp
    qed
  qed
  show ?thesis
    unfolding eq
    using regrid_gridShape [OF regrid_resetAdjacentBlocks _ gt] sameRows_resetAdjacentBlocks [of t]
    by (simp add: sameRows_def)
qed

lemma shiftGrid_shape:
  assumes "gridShape s"
  shows "gridShape (finalState (shiftGrid s))"
proof (cases "rowFromEnd 1 s")
  case None
  with assms show ?thesis by (simp add: shiftGrid_def)
next
  case (Some blocks)
  define t1 where "t1 = finalState (forEach blocks clearAdjacent s)"
  have g1: "gridShape t1"
    unfolding t1_def
    using regrid_gridShape [OF regrid_forEach [of blocks clearAdjacent s] _ assms]
      sameRows_forEach [of blocks clearAdjacent s] regrid_clearAdjacent sameRows_clearAdjacent
    by (simp add: sameRows_def)
  have step2: "gridShape (finalState (andThen (shiftRows (length (maze t) - 1) t)
            (\<lambda>u s2. andThen (createNewRow s2) (\<lambda>u. resetAdjacentBlocks))))"
    if gt: "gridShape t" for t
  proof -
    define t2 where "t2 = finalState (shiftRows (length (maze t) - 1) t)"
    have "length (maze t) - 1 < length (maze t)" using gt by (simp add: gridShape_def)
    from shiftRows_shape [OF this, of "numberOfRowBlocks t - 1"] gt
    have "length (maze t2) = length (maze t)"
      "\<forall>row\<in>set (maze t2). length row = numberOfRowBlocks t - 1"
      by (simp_all add: gridShape_def t2_def)
    moreover have "regrid t t2" unfolding t2_def by (rule regrid_shiftRows)
    ultimately have g2: "gridShape t2" using gt by (simp add: gridShape_def regrid_def)
    have step3: "gridShape (finalState (andThen (createNewRow v) (\<lambda>u. resetAdjacentBlocks)))"
      if gv: "gridShape v" for v
    proof (cases "createNewRow v")
      case (Threw e w)
      with createNewRow_shape [OF gv] show ?thesis by (simp add: andThen_def)
    next
      case (Ok u w)
      with createNewRow_shape [OF gv] have "gridShape w" by simp
      from regrid_gridShape [OF regrid_resetAdjacentBlocks _ this]
        sameRows_resetAdjacentBlocks [of w] Ok
      show ?thesis by (simp add: andThen_def sameRows_def)
    qed
    show ?thesis
    proof (cases "shiftRows (length (maze t) - 1) t")
      case (Threw e w)
      with g2 show ?thesis by (simp add: andThen_def t2_def)
    next
      case (Ok u w)
      with g2 have "gridShape w" by (simp add: t2_def)
      from step3 [OF this] Ok show ?thesis by (simp add: andThen_def)
    qed
  qed
  show ?thesis
  proof (cases "forEach blocks clearAdjacent s")
    case (Threw e w)
    with g1 Some show ?thesis by (simp add: shiftGrid_def andThen_def t1_def)
  next
    case (Ok u w)
    with g1 have "gridShape w" by (simp add: t1_def)
    from step2 [OF this] Ok Some show ?thesis by (simp add: shiftGrid_def andThen_def)
  qed
qed

section \<open>The states the program can reach\<close>

lemma andThen_Ok:
  "andThen r f = Ok u t \<Longrightarrow> \<exists>x s1. r = Ok x s1 \<and> f x s1 = Ok u t"
  by (cases r) (simp_all add: andThen_def)

lemma finalState_andThen:
  "finalState (andThen r f) = (case r of Ok x s \<Rightarrow> finalState (f x s) | Threw e s \<Rightarrow> s)"
  by (cases r) (simp_all add: andThen_def)

text \<open>The main path exists and is not empty.\<close>

definition mainSet :: "engine \<Rightarrow> bool" where
  "mainSet s \<longleftrightarrow>
     (\<exists>m. mainPath s = Some m \<and> m < length (pathHeap s) \<and> subPath (pathHeap s ! m) \<noteq> [])"

definition settled :: "engine \<Rightarrow> bool" where
  "settled s \<longleftrightarrow> sound s \<and> gridShape s \<and> mainSet s \<and> (\<exists>c. character s = Some c)"

lemma carved_mainSet:
  assumes "carved s t" "mainSet s"
  shows "mainSet t"
proof -
  from assms(2) obtain m where
    m: "mainPath s = Some m" "m < length (pathHeap s)" "subPath (pathHeap s ! m) \<noteq> []"
    by (auto simp: mainSet_def)
  have "length (subPath (pathHeap s ! m)) \<le> length (subPath (pathHeap t ! m))"
    using assms(1) m(2) by (simp add: carved_def)
  with m(3) have "subPath (pathHeap t ! m) \<noteq> []" by auto
  moreover have "mainPath t = Some m" "m < length (pathHeap t)"
    using assms(1) m(1,2) by (auto simp: carved_def)
  ultimately show ?thesis by (auto simp: mainSet_def)
qed

lemma regrid_mainSet: "regrid s t \<Longrightarrow> mainSet s \<Longrightarrow> mainSet t"
  by (simp add: regrid_def mainSet_def)

lemma firstBlocks_main:
  assumes "firstBlocks m row k s = Ok u t" "m < length (pathHeap s)"
  shows "mainPath t = mainPath s \<and> length (pathHeap t) = length (pathHeap s)
         \<and> subPath (pathHeap t ! m) \<noteq> []"
  using assms
  by (auto simp: firstBlocks_def pushSubPath_def setFloor_def updPath_def updBlock_def
      split: option.splits if_splits)

lemma randomBlockIndex_state:
  "snd (randomBlockIndex len s) = s\<lparr>rndUsed := rndUsed s + 1\<rparr>"
  by (simp add: randomBlockIndex_def randomFloor_def)

lemma makePathStart_main:
  assumes "makePathStart m s = Ok u t" "m < length (pathHeap s)"
  shows "mainPath t = mainPath s \<and> length (pathHeap t) = length (pathHeap s)
         \<and> subPath (pathHeap t ! m) \<noteq> []"
proof (cases "rowFromEnd 1 s")
  case None
  with assms(1) show ?thesis by (simp add: makePathStart_def)
next
  case (Some blocks)
  define s0 where "s0 = s\<lparr>currentRow := Some blocks\<rparr>"
  obtain k s1 where ks: "randomBlockIndex (length blocks) s0 = (k, s1)"
    by (cases "randomBlockIndex (length blocks) s0")
  have s1: "s1 = s0\<lparr>rndUsed := rndUsed s0 + 1\<rparr>"
    using randomBlockIndex_state [of "length blocks" s0] ks by simp
  from assms(1) Some ks have
    "andThen (firstBlocks m (Some blocks) k s1) (\<lambda>u s2. firstBlocks m (rowFromEnd 2 s2) k s2)
       = Ok u t"
    by (simp add: makePathStart_def s0_def)
  from andThen_Ok [OF this] obtain x s2 where
    a: "firstBlocks m (Some blocks) k s1 = Ok x s2"
    and b: "firstBlocks m (rowFromEnd 2 s2) k s2 = Ok u t" by blast
  have m1: "m < length (pathHeap s1)" using assms(2) by (simp add: s1 s0_def)
  from firstBlocks_main [OF a m1] have
    2: "mainPath s2 = mainPath s1" "length (pathHeap s2) = length (pathHeap s1)" by simp_all
  then have "m < length (pathHeap s2)" using m1 by simp
  from firstBlocks_main [OF b this] 2 show ?thesis by (simp add: s1 s0_def)
qed

lemma makePathHead_main:
  assumes "makePathHead s = Ok u t"
  shows "mainSet t"
proof -
  define m where "m = length (pathHeap s)"
  define s1 where "s1 = snd (allocPath s)"
  define s2 where "s2 = (updPath m (\<lambda>q. q\<lparr>distance := numberOfRowBlocks s1 * 20\<rparr>)
                           (s1\<lparr>mainPath := Some m\<rparr>))\<lparr>pathSeeds := Own []\<rparr>"
  have run: "makePathStart m s2 = Ok u t"
    using assms by (simp add: makePathHead_def allocPath_def s2_def s1_def m_def)
  have "m < length (pathHeap s2)" "mainPath s2 = Some m"
    by (simp_all add: s2_def s1_def allocPath_def updPath_def m_def)
  with makePathStart_main [OF run] show ?thesis by (auto simp: mainSet_def)
qed

lemma makePath_main:
  assumes "makePath s = Ok u t"
  shows "mainSet t"
proof -
  from andThen_Ok [OF assms [unfolded makePath_def]] obtain x s1 where
    a: "makePathHead s = Ok x s1"
    and b: "andThen (makePathLoop s1) (\<lambda>u. makePathBranches) = Ok u t" by blast
  have "carved s1 (finalState (andThen (makePathLoop s1) (\<lambda>u. makePathBranches)))"
    by (rule carved_andThen [OF makePathLoop_carved]) (rule makePathBranches_carved)
  with b have "carved s1 t" by simp
  from carved_mainSet [OF this makePathHead_main [OF a]] show ?thesis .
qed

lemma settled_character:
  assumes "settled s" "b < length (heap s)" "\<not> isWall (heap s ! b)"
  shows "settled (s\<lparr>character := Some b\<rparr>)"
proof -
  have "refs (s\<lparr>character := Some b\<rparr>) = refs s"
    by (simp add: refs_def seedsOf_def split: seeds.splits)
  then have "sound (s\<lparr>character := Some b\<rparr>)"
    using assms by (simp add: settled_def sound_def good_def)
  then show ?thesis using assms(1) by (simp add: settled_def gridShape_def mainSet_def)
qed

lemma start_settled:
  assumes "start (loaded n r) = Ok () s"
  shows "settled s"
proof -
  define s0 where "s0 = makePointGrid (calculateDimensions (loaded n r))"
  from andThen_Ok [OF assms [unfolded start_def]] obtain x s1 where
    a: "makeMaze s0 = Ok x s1"
    and b: "andThen (makePath s1) (\<lambda>u. makeCharacter) = Ok () s" by (auto simp: s0_def)
  from andThen_Ok [OF b] obtain y s2 where
    c: "makePath s1 = Ok y s2" and d: "makeCharacter s2 = Ok () s" by blast
  have pg: "pointGrid s0 = replicate (3 * (numberOfRowBlocks s0 + 1)) (numberOfRowBlocks s0 + 1)"
    by (simp add: s0_def makePointGrid_def calculateDimensions_def loaded_def mult.commute)
  from makeMaze_shape [OF pg] a have
    g1: "gridShape s1" and i1: "rowsIndexed s1" and r1: "regrid (s0\<lparr>maze := []\<rparr>) s1"
    by simp_all
  have e1: "pathHeap s1 = []" "paths s1 = []" "pathSeeds s1 = Own []" "secondSeeds s1 = []"
    "character s1 = None"
    using r1 by (simp_all add: regrid_def s0_def makePointGrid_def calculateDimensions_def
        loaded_def)
  define s1' where "s1' = s1\<lparr>mainPath := Some (length (pathHeap s1))\<rparr>"
  have "sound s1'"
    using e1 by (simp add: sound_def refs_def seedsOf_def s1'_def)
  moreover have cv: "carved s1' s2"
    using makePath_carved [OF lowRows_built [OF g1 i1]] c by (simp add: s1'_def)
  ultimately have so2: "sound s2" by (rule carved_sound [rotated])
  have "gridShape s1'" using g1 by (simp add: gridShape_def s1'_def)
  from carved_gridShape [OF cv this] have g2: "gridShape s2" .
  from makePath_main [OF c] obtain m where
    m: "mainPath s2 = Some m" "m < length (pathHeap s2)" "subPath (pathHeap s2 ! m) \<noteq> []"
    by (auto simp: mainSet_def)
  define c where "c = subPath (pathHeap s2 ! m) ! 0"
  have cs: "c \<in> set (subPath (pathHeap s2 ! m))" using m(3) by (simp add: c_def)
  then have "c \<in> refs s2" using m(2) by (auto simp: refs_def)
  with so2 have gc: "good s2 c" by (simp add: sound_def)
  have "character s2 = None" using cv e1 by (simp add: carved_def s1'_def)
  have s: "s = s2\<lparr>character := Some c\<rparr>"
    using d m by (simp add: makeCharacter_def at_def c_def)
  have "refs s = refs s2" by (simp add: s refs_def seedsOf_def split: seeds.splits)
  then have "sound s" using so2 gc by (simp add: sound_def good_def s)
  moreover have "gridShape s" using g2 by (simp add: gridShape_def s)
  moreover have "mainSet s" using m by (simp add: mainSet_def s)
  ultimately show ?thesis by (simp add: settled_def s)
qed

lemma target_valid: "target r k s = Some b \<Longrightarrow> b < length (heap s)"
  by (auto simp: target_def split: option.splits if_splits)

lemma moveTo_settled:
  assumes "settled s" "\<And>b. tgt = Some b \<Longrightarrow> b < length (heap s)"
  shows "settled (finalState (moveTo tgt s))"
proof (cases tgt)
  case None
  with assms(1) show ?thesis by (simp add: moveTo_def)
next
  case (Some b)
  with assms(2) have "b < length (heap s)" by simp
  with Some assms(1) settled_character [of s b] show ?thesis by (simp add: moveTo_def)
qed

text \<open>A rebase keeps the invariant, and every floor block stays a floor block.\<close>

definition floorsKept :: "engine \<Rightarrow> engine \<Rightarrow> bool" where
  "floorsKept s t \<longleftrightarrow>
     (\<forall>b<length (heap s). \<not> isWall (heap s ! b) \<longrightarrow> b < length (heap t) \<and> \<not> isWall (heap t ! b))"

lemma regrid_floorsKept: "regrid s t \<Longrightarrow> floorsKept s t"
  by (auto simp: regrid_def floorsKept_def)

lemma carved_floorsKept: "carved s t \<Longrightarrow> floorsKept s t"
  by (auto simp: carved_def floorsKept_def)

lemma floorsKept_trans: "floorsKept s t \<Longrightarrow> floorsKept t u \<Longrightarrow> floorsKept s u"
  by (auto simp: floorsKept_def)

lemma regrid_settled:
  assumes "regrid s t" "gridShape t" "settled s"
  shows "settled t"
  using assms regrid_sound [of s t] regrid_mainSet [of s t]
  by (auto simp: settled_def regrid_def)

lemma carved_settled:
  assumes "carved s t" "settled s"
  shows "settled t"
  using assms carved_sound [of s t] carved_mainSet [of s t] carved_gridShape [of s t]
  by (auto simp: settled_def carved_def)

lemma shiftMaze_settled:
  assumes "settled s"
  shows "settled (finalState (shiftMaze s)) \<and> floorsKept s (finalState (shiftMaze s))"
proof -
  define t1 where "t1 = finalState (shiftGrid s)"
  have r: "regrid s t1" unfolding t1_def by (rule regrid_shiftGrid)
  have "gridShape t1" unfolding t1_def using assms by (simp add: settled_def shiftGrid_shape)
  from regrid_settled [OF r this assms] have s1: "settled t1" .
  show ?thesis
  proof (cases "shiftGrid s")
    case (Threw e w)
    then have "finalState (shiftMaze s) = t1" by (simp add: shiftMaze_def andThen_def t1_def)
    with s1 r show ?thesis by (simp add: regrid_floorsKept)
  next
    case (Ok u w)
    then have w: "w = t1" by (simp add: t1_def)
    have eq: "finalState (shiftMaze s) = finalState (shiftPaths t1)"
      using Ok w by (simp add: shiftMaze_def andThen_def)
    have c: "carved t1 (finalState (shiftPaths t1))" by (rule shiftPaths_carved)
    from carved_settled [OF c s1] floorsKept_trans [OF regrid_floorsKept [OF r] carved_floorsKept [OF c]]
    show ?thesis by (simp add: eq)
  qed
qed

lemma moveUp_settled:
  assumes "settled s"
  shows "settled (finalState (moveUp s))"
proof (cases "character s")
  case None
  with assms show ?thesis by (simp add: moveUp_def)
next
  case (Some cur)
  show ?thesis
  proof (cases "cur < length (heap s)")
    case False
    with Some assms show ?thesis by (simp add: moveUp_def)
  next
    case True
    let ?t = "target (before (rowIndex (heap s ! cur))) (Some (blockIndex (heap s ! cur))) s"
    show ?thesis
    proof (cases ?t)
      case None
      with Some True assms show ?thesis by (simp add: moveUp_def)
    next
      case (Some b)
      note tb = this
      from target_valid [OF this] have bv: "b < length (heap s)" .
      show ?thesis
      proof (cases "isWall (heap s ! b)")
        case True
        with tb \<open>character s = Some cur\<close> \<open>cur < length (heap s)\<close> assms show ?thesis
          by (simp add: moveUp_def)
      next
        case False
        show ?thesis
        proof (cases "6 * (rowIndex (heap s ! b) + 1) < 5 * length (maze s)")
          case True
          define t where "t = finalState (shiftMaze s)"
          from shiftMaze_settled [OF assms] have st: "settled t" "floorsKept s t"
            by (simp_all add: t_def)
          then have "b < length (heap t)" "\<not> isWall (heap t ! b)"
            using bv False by (auto simp: floorsKept_def)
          from settled_character [OF st(1) this]
          have 1: "settled (t\<lparr>character := Some b\<rparr>)" .
          have "finalState (moveUp s) = t \<or> finalState (moveUp s) = t\<lparr>character := Some b\<rparr>"
            using tb \<open>character s = Some cur\<close> \<open>cur < length (heap s)\<close> False True
            by (cases "shiftMaze s") (simp_all add: moveUp_def andThen_def t_def)
          with st(1) 1 show ?thesis by auto
        next
          case nf: False
          have "finalState (moveUp s) = s\<lparr>character := Some b\<rparr>"
            using tb \<open>character s = Some cur\<close> \<open>cur < length (heap s)\<close> False nf
            by (simp add: moveUp_def andThen_def)
          with settled_character [OF assms bv False] show ?thesis by simp
        qed
      qed
    qed
  qed
qed

lemma keydown_settled:
  assumes "settled s"
  shows "settled (finalState (keydown keyCode s))"
proof -
  have mv: "settled (finalState (moveTo (target r k s) s))" for r k
    by (rule moveTo_settled [OF assms]) (rule target_valid)
  have "settled (finalState (moveLeft s))" "settled (finalState (moveDown s))"
    "settled (finalState (moveRight s))"
    using assms mv by (auto simp: moveLeft_def moveDown_def moveRight_def split: option.splits)
  with moveUp_settled [OF assms] assms show ?thesis by (simp add: keydown_def)
qed

lemma reachable_settled: "reachable s \<Longrightarrow> settled s"
  by (induction rule: reachable.induct) (simp_all add: start_settled keydown_settled)

section \<open>The main path never moves down\<close>

text \<open>Rows are numbered from the top, so a path that does not move down has row indices
  that do not increase.\<close>

definition rowsOf :: "engine \<Rightarrow> nat list \<Rightarrow> nat list" where
  "rowsOf s bs = map (\<lambda>b. rowIndex (heap s ! b)) bs"

definition nonIncreasing :: "nat list \<Rightarrow> bool" where
  "nonIncreasing rs \<longleftrightarrow> sorted_wrt (\<lambda>i j. j \<le> i) rs"

lemma nonIncreasing_step:
  "r1 \<le> r0 \<Longrightarrow> nonIncreasing (r1 # rs) \<Longrightarrow> nonIncreasing (r0 # r1 # rs)"
  by (auto simp: nonIncreasing_def)

lemma carved_rowsOf:
  assumes "carved s t" "\<forall>b\<in>set bs. b < length (heap s)"
  shows "rowsOf t bs = rowsOf s bs"
  using assms by (simp add: rowsOf_def carved_def)

lemma sameButCounts_frame:
  assumes "sameButCounts s t"
  shows "pathHeap t = pathHeap s" "mainPath t = mainPath s" "currentBlock t = currentBlock s"
proof -
  from assms have "t = s\<lparr>heap := heap t\<rparr>" by (simp add: sameButCounts_def)
  then have "pathHeap t = pathHeap (s\<lparr>heap := heap t\<rparr>)" "mainPath t = mainPath (s\<lparr>heap := heap t\<rparr>)"
    "currentBlock t = currentBlock (s\<lparr>heap := heap t\<rparr>)" by simp_all
  then show "pathHeap t = pathHeap s" "mainPath t = mainPath s" "currentBlock t = currentBlock s"
    by simp_all
qed

lemma makePathAdvance_run:
  assumes "pickNext cands s = (c, s1)" "\<not> (rowIndex (heap s ! cur) = 1 \<or> cands = [])"
    "mainPath s1 = Some m" "m < length (pathHeap s1)"
  shows "\<exists>t. makePathAdvance cur cands s = Ok True t \<and> currentBlock t = Some c
             \<and> subPath (pathHeap t ! m) = subPath (pathHeap s1 ! m) @ [c]"
  using assms
  by (simp add: makePathAdvance_def randomFloor_def pushSubPath_def updPath_def setFloor_def
      updBlock_def pushPathSeed_def split: seeds.splits)

text \<open>One iteration of the loop of makePath either leaves the main path as it is and ends
  the loop, or appends one block that is not below the current block.\<close>

lemma makePathStep_climb:
  assumes "mainPath s = Some m" "m < length (pathHeap s)" "currentBlock s = Some cur"
  shows "((\<forall>t. makePathStep s \<noteq> Ok True t)
          \<and> subPath (pathHeap (finalState (makePathStep s)) ! m) = subPath (pathHeap s ! m))
       \<or> (\<exists>c t. makePathStep s = Ok True t \<and> c < length (heap s)
            \<and> rowIndex (heap s ! c) \<le> rowIndex (heap s ! cur)
            \<and> currentBlock t = Some c
            \<and> subPath (pathHeap t ! m) = subPath (pathHeap s ! m) @ [c])"
proof (cases "cur < length (heap s)")
  case False
  with assms(3) show ?thesis by (simp add: makePathStep_def)
next
  case True
  let ?adj = "adjacentBlocks (heap s ! cur)"
  have eq: "makePathStep s = andThen (scanMainNeighbours cur ?adj [] s) (makePathAdvance cur)"
    using True assms(3) by (simp add: makePathStep_def)
  show ?thesis
  proof (cases "scanMainNeighbours cur ?adj [] s")
    case (Threw e t)
    have "sameButCounts s t" using scanMainNeighbours_same [of s cur ?adj "[]"] Threw by simp
    from sameButCounts_frame(1) [OF this] Threw show ?thesis by (simp add: eq andThen_def)
  next
    case (Ok cands t1)
    have st: "sameButCounts s t1"
      using scanMainNeighbours_same [of s cur ?adj "[]"] Ok by simp
    note fr = sameButCounts_frame [OF st]
    have run: "makePathStep s = makePathAdvance cur cands t1" using Ok by (simp add: eq andThen_def)
    show ?thesis
    proof (cases "rowIndex (heap t1 ! cur) = 1 \<or> cands = []")
      case True
      then have "makePathAdvance cur cands t1 = Ok False t1" by (auto simp: makePathAdvance_def)
      with fr show ?thesis by (simp add: run)
    next
      case False
      then have ne: "cands \<noteq> []" by simp
      define s1 where "s1 = t1\<lparr>rndUsed := rndUsed t1 + 1\<rparr>"
      from pickNext_cases [OF ne, of t1] obtain c where c: "c \<in> set cands"
        and pk: "pickNext cands t1 = (c, s1)" unfolding s1_def by blast
      from scanMainNeighbours_accepted [OF Ok c]
      obtain u where u: "c < length (heap s)" "sameButCounts s u" "makePathRule cur u (heap u ! c)"
        by auto
      have row: "rowIndex (heap s ! c) \<le> rowIndex (heap s ! cur)"
        using u(3) sameButCounts_fields(2) [OF u(2) u(1)] sameButCounts_fields(2) [OF u(2) True]
        by (simp add: makePathRule_def)
      have m1: "mainPath s1 = Some m" "m < length (pathHeap s1)" "pathHeap s1 = pathHeap s"
        using assms fr by (simp_all add: s1_def)
      from makePathAdvance_run [OF pk False m1(1,2)] obtain t where
        "makePathAdvance cur cands t1 = Ok True t" "currentBlock t = Some c"
        "subPath (pathHeap t ! m) = subPath (pathHeap s1 ! m) @ [c]" by blast
      moreover note m1(3)
      ultimately show ?thesis using u(1) row run by simp
    qed
  qed
qed

lemma makePathLoop_climb:
  assumes "mainPath s = Some m" "m < length (pathHeap s)" "currentBlock s = Some cur"
  shows "\<exists>added. subPath (pathHeap (finalState (makePathLoop s)) ! m)
                   = subPath (pathHeap s ! m) @ added
               \<and> nonIncreasing (rowsOf s (cur # added))
               \<and> (\<forall>b\<in>set added. b < length (heap s))"
  using assms
proof (induction s arbitrary: cur rule: makePathLoop.induct)
  case (1 s)
  have stop: ?case
    if "finalState (makePathLoop s) = finalState (makePathStep s)"
      "subPath (pathHeap (finalState (makePathStep s)) ! m) = subPath (pathHeap s ! m)"
  proof -
    from that have "subPath (pathHeap (finalState (makePathLoop s)) ! m)
        = subPath (pathHeap s ! m) @ []" by simp
    moreover have "nonIncreasing (rowsOf s (cur # []))"
      by (simp add: nonIncreasing_def rowsOf_def)
    moreover have "\<forall>b\<in>set []. b < length (heap s)" by simp
    ultimately show ?thesis by (rule_tac x = "[]" in exI) simp
  qed
  note climb = makePathStep_climb [OF "1.prems"]
  show ?case
  proof (cases "makePathStep s")
    case (Threw e t)
    then have "finalState (makePathLoop s) = finalState (makePathStep s)"
      by (subst makePathLoop.simps) simp
    moreover from climb Threw
    have "subPath (pathHeap (finalState (makePathStep s)) ! m) = subPath (pathHeap s ! m)"
      by simp
    ultimately show ?thesis by (rule stop)
  next
    case (Ok again t)
    show ?thesis
    proof (cases again)
      case False
      with Ok have "finalState (makePathLoop s) = finalState (makePathStep s)"
        by (subst makePathLoop.simps) simp
      moreover from climb Ok False
      have "subPath (pathHeap (finalState (makePathStep s)) ! m) = subPath (pathHeap s ! m)"
        by simp
      ultimately show ?thesis by (rule stop)
    next
      case True
      with Ok have ok: "makePathStep s = Ok True t" by simp
      with climb obtain c where cv: "c < length (heap s)"
        and row: "rowIndex (heap s ! c) \<le> rowIndex (heap s ! cur)"
        and ct: "currentBlock t = Some c"
        and sp: "subPath (pathHeap t ! m) = subPath (pathHeap s ! m) @ [c]" by auto
      have cst: "carved s t" using makePathStep_carved [of s] ok by simp
      then have mt: "mainPath t = Some m" "m < length (pathHeap t)"
        and hl: "length (heap t) = length (heap s)"
        using "1.prems" by (auto simp: carved_def)
      from "1.IH" [OF ok TrueI mt ct] obtain added where
        a: "subPath (pathHeap (finalState (makePathLoop t)) ! m)
              = subPath (pathHeap t ! m) @ added"
        "nonIncreasing (rowsOf t (c # added))" "\<forall>b\<in>set added. b < length (heap t)" by blast
      have "\<forall>b\<in>set (c # added). b < length (heap s)" using a(3) cv hl by simp
      from carved_rowsOf [OF cst this] a(2) have "nonIncreasing (rowsOf s (c # added))" by simp
      with row have 1: "nonIncreasing (rowsOf s (cur # c # added))"
        by (simp add: rowsOf_def nonIncreasing_step)
      have "finalState (makePathLoop s) = finalState (makePathLoop t)"
        using ok by (subst makePathLoop.simps) simp
      then have 2: "subPath (pathHeap (finalState (makePathLoop s)) ! m)
          = subPath (pathHeap s ! m) @ (c # added)" using a(1) sp by simp
      have 3: "\<forall>b\<in>set (c # added). b < length (heap s)" using a(3) cv hl by simp
      from 1 2 3 show ?thesis by blast
    qed
  qed
qed

text \<open>One iteration of the loop of extendMainPath either leaves the main path as it is
  and ends the loop, or appends one block that is not below the latest block and
  removes the first block.\<close>

lemma extendMainAdvance_run:
  assumes "pickNext cands s = (c, s1)" "cands \<noteq> []"
    "mainPath s1 = Some m" "m < length (pathHeap s1)"
  shows "\<exists>again t. extendMainAdvance latest cands s = Ok (again, c) t
             \<and> subPath (pathHeap t ! m) = drop 1 (subPath (pathHeap s1 ! m) @ [c])"
  using assms
  by (auto simp: extendMainAdvance_def extendMainGrow_def andThen_def randomFloor_def
      updPath_def setFloor_def updBlock_def pushPathSeed_def split: seeds.splits)

lemma extendMainStep_climb:
  assumes "mainPath s = Some m" "m < length (pathHeap s)" "1 \<le> rowIndex (heap s ! latest)"
  shows "((\<forall>l t. extendMainStep latest s \<noteq> Ok (True, l) t)
          \<and> subPath (pathHeap (finalState (extendMainStep latest s)) ! m)
              = subPath (pathHeap s ! m))
       \<or> (\<exists>c. c < length (heap s)
            \<and> rowIndex (heap s ! c) \<le> rowIndex (heap s ! latest)
            \<and> 1 \<le> rowIndex (heap s ! c)
            \<and> (\<exists>again t. extendMainStep latest s = Ok (again, c) t)
            \<and> subPath (pathHeap (finalState (extendMainStep latest s)) ! m)
                = drop 1 (subPath (pathHeap s ! m) @ [c]))"
proof (cases "latest < length (heap s)")
  case False
  then show ?thesis by (simp add: extendMainStep_def)
next
  case True
  let ?adj = "adjacentBlocks (heap s ! latest)"
  have eq: "extendMainStep latest s
      = andThen (scanNeighbours (extendMainRule latest) ?adj [] s) (extendMainAdvance latest)"
    using True by (simp add: extendMainStep_def)
  show ?thesis
  proof (cases "scanNeighbours (extendMainRule latest) ?adj [] s")
    case (Threw e t)
    have "sameButCounts s t"
      using scanNeighbours_same [of s "extendMainRule latest" ?adj "[]"] Threw by simp
    from sameButCounts_frame(1) [OF this] Threw show ?thesis by (simp add: eq andThen_def)
  next
    case (Ok cands t1)
    have st: "sameButCounts s t1"
      using scanNeighbours_same [of s "extendMainRule latest" ?adj "[]"] Ok by simp
    note fr = sameButCounts_frame [OF st]
    have run: "extendMainStep latest s = extendMainAdvance latest cands t1"
      using Ok by (simp add: eq andThen_def)
    show ?thesis
    proof (cases "cands = []")
      case True
      then have "extendMainAdvance latest cands t1 = Ok (False, latest) t1"
        by (simp add: extendMainAdvance_def extendMainGrow_def andThen_def)
      with fr show ?thesis by (simp add: run)
    next
      case False
      define s1 where "s1 = t1\<lparr>rndUsed := rndUsed t1 + 1\<rparr>"
      from pickNext_cases [OF False, of t1] obtain c where c: "c \<in> set cands"
        and pk: "pickNext cands t1 = (c, s1)" unfolding s1_def by blast
      from scanNeighbours_accepted [OF Ok c]
      obtain u where u: "c < length (heap s)" "sameButCounts s u"
        "extendMainRule latest u (heap u ! c)" by auto
      have rows: "rowIndex (heap u ! c) = rowIndex (heap s ! c)"
        "rowIndex (heap u ! latest) = rowIndex (heap s ! latest)"
        using sameButCounts_fields(2) [OF u(2) u(1)] sameButCounts_fields(2) [OF u(2) True]
        by simp_all
      have row: "rowIndex (heap s ! c) \<le> rowIndex (heap s ! latest)"
        "1 \<le> rowIndex (heap s ! c)"
        using u(3) rows assms(3) by (auto simp: extendMainRule_def)
      have m1: "mainPath s1 = Some m" "m < length (pathHeap s1)" "pathHeap s1 = pathHeap s"
        using assms fr by (simp_all add: s1_def)
      from extendMainAdvance_run [OF pk False m1(1,2), of latest] obtain again t where
        "extendMainAdvance latest cands t1 = Ok (again, c) t"
        "subPath (pathHeap t ! m) = drop 1 (subPath (pathHeap s1 ! m) @ [c])" by blast
      with u(1) row m1(3) run show ?thesis by auto
    qed
  qed
qed

lemma extendMainLoop_climb:
  assumes "mainPath s = Some m" "m < length (pathHeap s)" "1 \<le> rowIndex (heap s ! latest)"
  shows "\<exists>added. subPath (pathHeap (finalState (extendMainLoop latest s)) ! m)
                   = drop (length added) (subPath (pathHeap s ! m) @ added)
               \<and> nonIncreasing (rowsOf s (latest # added))
               \<and> (\<forall>b\<in>set added. b < length (heap s))"
  using assms
proof (induction latest s rule: extendMainLoop.induct)
  case (1 latest s)
  let ?old = "subPath (pathHeap s ! m)"
  let ?step = "extendMainStep latest s"
  have stop: ?case
    if fin: "finalState (extendMainLoop latest s) = finalState ?step"
      and sub: "subPath (pathHeap (finalState ?step) ! m) = ?old
         \<or> (\<exists>c. c < length (heap s) \<and> rowIndex (heap s ! c) \<le> rowIndex (heap s ! latest)
               \<and> subPath (pathHeap (finalState ?step) ! m) = drop 1 (?old @ [c]))"
  proof -
    from sub show ?thesis
    proof
      assume "subPath (pathHeap (finalState ?step) ! m) = ?old"
      with fin have "subPath (pathHeap (finalState (extendMainLoop latest s)) ! m)
          = drop (length ([]::nat list)) (?old @ [])" by simp
      moreover have "nonIncreasing (rowsOf s (latest # []))"
        by (simp add: nonIncreasing_def rowsOf_def)
      moreover have "\<forall>b\<in>set []. b < length (heap s)" by simp
      ultimately show ?thesis by blast
    next
      assume "\<exists>c. c < length (heap s) \<and> rowIndex (heap s ! c) \<le> rowIndex (heap s ! latest)
               \<and> subPath (pathHeap (finalState ?step) ! m) = drop 1 (?old @ [c])"
      then obtain c where c: "c < length (heap s)"
        "rowIndex (heap s ! c) \<le> rowIndex (heap s ! latest)"
        "subPath (pathHeap (finalState ?step) ! m) = drop 1 (?old @ [c])" by blast
      from fin c(3) have "subPath (pathHeap (finalState (extendMainLoop latest s)) ! m)
          = drop (length [c]) (?old @ [c])" by simp
      moreover have "nonIncreasing (rowsOf s (latest # [c]))"
        using c(2) by (simp add: nonIncreasing_def rowsOf_def)
      moreover have "\<forall>b\<in>set [c]. b < length (heap s)" using c(1) by simp
      ultimately show ?thesis by blast
    qed
  qed
  note climb = extendMainStep_climb [OF "1.prems"]
  have sub: "subPath (pathHeap (finalState ?step) ! m) = ?old
         \<or> (\<exists>c. c < length (heap s) \<and> rowIndex (heap s ! c) \<le> rowIndex (heap s ! latest)
               \<and> subPath (pathHeap (finalState ?step) ! m) = drop 1 (?old @ [c]))"
    using climb by blast
  show ?case
  proof (cases ?step)
    case (Threw e t)
    then have "finalState (extendMainLoop latest s) = finalState ?step"
      by (subst extendMainLoop.simps) simp
    from stop [OF this sub] show ?thesis .
  next
    case (Ok r t)
    obtain again l where r: "r = (again, l)" by (cases r)
    show ?thesis
    proof (cases again)
      case False
      with Ok r have "finalState (extendMainLoop latest s) = finalState ?step"
        by (subst extendMainLoop.simps) simp
      from stop [OF this sub] show ?thesis .
    next
      case True
      with Ok r have ok: "?step = Ok (True, l) t" by simp
      with climb have cv: "l < length (heap s)"
        and row: "rowIndex (heap s ! l) \<le> rowIndex (heap s ! latest)"
        and low: "1 \<le> rowIndex (heap s ! l)"
        and sp: "subPath (pathHeap t ! m) = drop 1 (?old @ [l])" by auto
      have cst: "carved s t" using extendMainStep_carved [of s latest] ok by simp
      then have mt: "mainPath t = Some m" "m < length (pathHeap t)"
        and hl: "length (heap t) = length (heap s)"
        and rl: "1 \<le> rowIndex (heap t ! l)"
        using "1.prems" cv low by (auto simp: carved_def)
      from "1.IH" [OF Ok r [symmetric] True mt rl] obtain added where
        a: "subPath (pathHeap (finalState (extendMainLoop l t)) ! m)
              = drop (length added) (subPath (pathHeap t ! m) @ added)"
        "nonIncreasing (rowsOf t (l # added))" "\<forall>b\<in>set added. b < length (heap t)" by blast
      have 3: "\<forall>b\<in>set (l # added). b < length (heap s)" using a(3) cv hl by simp
      from carved_rowsOf [OF cst 3] a(2) have "nonIncreasing (rowsOf s (l # added))" by simp
      with row have 1: "nonIncreasing (rowsOf s (latest # l # added))"
        by (simp add: rowsOf_def nonIncreasing_step)
      have "finalState (extendMainLoop latest s) = finalState (extendMainLoop l t)"
        using ok by (subst extendMainLoop.simps) simp
      then have f: "subPath (pathHeap (finalState (extendMainLoop latest s)) ! m)
          = drop (length added) (drop 1 (?old @ [l]) @ added)" using a(1) sp by simp
      have e0: "drop 1 (?old @ [l]) @ added = drop 1 (?old @ l # added)"
        by (cases ?old) simp_all
      have e1: "drop (length added) (drop 1 (?old @ l # added))
          = drop (length (l # added)) (?old @ l # added)"
        by (simp only: drop_drop length_Cons Suc_eq_plus1)
      have 2: "subPath (pathHeap (finalState (extendMainLoop latest s)) ! m)
          = drop (length (l # added)) (?old @ l # added)"
        unfolding f e0 e1 by (rule refl)
      from 1 2 3 show ?thesis by blast
    qed
  qed
qed

text \<open>When the current block does not exist the loops end at once.\<close>

lemma makePathLoop_invalid:
  assumes "currentBlock s = Some cur" "\<not> cur < length (heap s)"
  shows "finalState (makePathLoop s) = s"
  using assms by (subst makePathLoop.simps) (simp add: makePathStep_def)

lemma extendMainLoop_invalid:
  assumes "\<not> latest < length (heap s)"
  shows "finalState (extendMainLoop latest s) = s"
  using assms by (subst extendMainLoop.simps) (simp add: extendMainStep_def)

lemma makePathLoop_rows:
  assumes "mainPath s = Some m" "m < length (pathHeap s)" "currentBlock s = Some cur"
  shows "\<exists>added. subPath (pathHeap (finalState (makePathLoop s)) ! m)
                   = subPath (pathHeap s ! m) @ added
               \<and> nonIncreasing (rowsOf (finalState (makePathLoop s)) (cur # added))"
proof (cases "cur < length (heap s)")
  case False
  have "subPath (pathHeap s ! m) = subPath (pathHeap s ! m) @ []"
    "nonIncreasing (rowsOf s (cur # []))"
    by (simp_all add: nonIncreasing_def rowsOf_def)
  then show ?thesis unfolding makePathLoop_invalid [OF assms(3) False] by blast
next
  case True
  from makePathLoop_climb [OF assms] obtain added where
    a: "subPath (pathHeap (finalState (makePathLoop s)) ! m) = subPath (pathHeap s ! m) @ added"
    "nonIncreasing (rowsOf s (cur # added))" "\<forall>b\<in>set added. b < length (heap s)" by blast
  have "\<forall>b\<in>set (cur # added). b < length (heap s)" using a(3) True by simp
  from carved_rowsOf [OF makePathLoop_carved this] a(1,2) show ?thesis by auto
qed

lemma extendMainLoop_rows:
  assumes "mainPath s = Some m" "m < length (pathHeap s)" "1 \<le> rowIndex (heap s ! latest)"
  shows "\<exists>added. subPath (pathHeap (finalState (extendMainLoop latest s)) ! m)
                   = drop (length added) (subPath (pathHeap s ! m) @ added)
               \<and> nonIncreasing (rowsOf (finalState (extendMainLoop latest s)) (latest # added))"
proof (cases "latest < length (heap s)")
  case False
  have "subPath (pathHeap s ! m) = drop (length ([]::nat list)) (subPath (pathHeap s ! m) @ [])"
    "nonIncreasing (rowsOf s (latest # []))"
    by (simp_all add: nonIncreasing_def rowsOf_def)
  then show ?thesis unfolding extendMainLoop_invalid [OF False] by blast
next
  case True
  from extendMainLoop_climb [OF assms] obtain added where
    a: "subPath (pathHeap (finalState (extendMainLoop latest s)) ! m)
          = drop (length added) (subPath (pathHeap s ! m) @ added)"
    "nonIncreasing (rowsOf s (latest # added))" "\<forall>b\<in>set added. b < length (heap s)" by blast
  have "\<forall>b\<in>set (latest # added). b < length (heap s)" using a(3) True by simp
  from carved_rowsOf [OF extendMainLoop_carved this] a(1,2) show ?thesis by auto
qed

lemma extendMainPath_rows:
  assumes "sound s" "mainPath s = Some m" "m < length (pathHeap s)"
    "subPath (pathHeap s ! m) \<noteq> []"
  shows "\<exists>added. subPath (pathHeap (finalState (extendMainPath s)) ! m)
                   = drop (length added) (subPath (pathHeap s ! m) @ added)
               \<and> nonIncreasing (rowsOf (finalState (extendMainPath s))
                    (last (subPath (pathHeap s ! m)) # added))"
proof -
  let ?l = "last (subPath (pathHeap s ! m))"
  have "?l \<in> set (subPath (pathHeap s ! m))" using assms(4) by simp
  then have "?l \<in> refs s" using assms(3) by (auto simp: refs_def)
  with assms(1) have "good s ?l" by (simp add: sound_def)
  then have low: "1 \<le> rowIndex (heap s ! ?l)" by (simp add: good_def)
  have "extendMainPath s = extendMainLoop ?l s"
    using assms(2,3,4) by (simp add: extendMainPath_def at_def)
  with extendMainLoop_rows [OF assms(2,3) low] show ?thesis by simp
qed

text \<open>The first two blocks of the main path: makePath takes a block of the bottom row
  and the block above it.\<close>

lemma firstBlocks_Ok:
  assumes "firstBlocks m row k s = Ok u t"
  shows "\<exists>blocks. row = Some blocks \<and> k < length blocks \<and> blocks ! k < length (heap s)
           \<and> t = pushSubPath m (blocks ! k)
                   (setFloor (blocks ! k) (s\<lparr>currentRow := row, currentBlock := Some (blocks ! k)\<rparr>))"
  using assms by (auto simp: firstBlocks_def at_def split: option.splits if_splits)

lemma rowFromEnd_Some:
  assumes "rowFromEnd d s = Some blocks" "0 < d"
  shows "d \<le> length (maze s) \<and> blocks = maze s ! (length (maze s) - d)"
  using assms by (auto simp: rowFromEnd_def at_def split: if_splits)

lemma makePathStart_first:
  assumes "rowsExact s" "makePathStart m s = Ok u t" "m < length (pathHeap s)"
    "subPath (pathHeap s ! m) = []"
  shows "\<exists>a b. subPath (pathHeap t ! m) = [a, b] \<and> currentBlock t = Some b
           \<and> nonIncreasing (rowsOf t [a, b])
           \<and> mainPath t = mainPath s \<and> length (pathHeap t) = length (pathHeap s)"
proof (cases "rowFromEnd 1 s")
  case None
  with assms(2) show ?thesis by (simp add: makePathStart_def)
next
  case (Some blocks)
  define s0 where "s0 = s\<lparr>currentRow := Some blocks\<rparr>"
  obtain k s1 where ks: "randomBlockIndex (length blocks) s0 = (k, s1)"
    by (cases "randomBlockIndex (length blocks) s0")
  have s1: "s1 = s0\<lparr>rndUsed := rndUsed s0 + 1\<rparr>"
    using randomBlockIndex_state [of "length blocks" s0] ks by simp
  from assms(2) Some ks have
    "andThen (firstBlocks m (Some blocks) k s1) (\<lambda>u s2. firstBlocks m (rowFromEnd 2 s2) k s2)
       = Ok u t"
    by (simp add: makePathStart_def s0_def)
  from andThen_Ok [OF this] obtain x s2 where
    f1: "firstBlocks m (Some blocks) k s1 = Ok x s2"
    and f2: "firstBlocks m (rowFromEnd 2 s2) k s2 = Ok u t" by blast
  define a where "a = blocks ! k"
  from firstBlocks_Ok [OF f1] have ka: "k < length blocks" and av: "a < length (heap s1)"
    and s2: "s2 = pushSubPath m a (setFloor a (s1\<lparr>currentRow := Some blocks,
                                                  currentBlock := Some a\<rparr>))"
    by (simp_all add: a_def)
  have mz2: "maze s2 = maze s" and hl2: "length (heap s2) = length (heap s)"
    by (simp_all add: s2 s1 s0_def pushSubPath_def updPath_def setFloor_def updBlock_def)
  from firstBlocks_Ok [OF f2] obtain blocks2 where r2: "rowFromEnd 2 s2 = Some blocks2"
    and kb: "k < length blocks2" and bv: "blocks2 ! k < length (heap s2)"
    and t: "t = pushSubPath m (blocks2 ! k)
                  (setFloor (blocks2 ! k) (s2\<lparr>currentRow := Some blocks2,
                                              currentBlock := Some (blocks2 ! k)\<rparr>))"
    by auto
  define b where "b = blocks2 ! k"
  from rowFromEnd_Some [OF Some] have l1: "1 \<le> length (maze s)"
    and b1: "blocks = maze s ! (length (maze s) - 1)" by simp_all
  from rowFromEnd_Some [OF r2] mz2 have l2: "2 \<le> length (maze s)"
    and b2: "blocks2 = maze s ! (length (maze s) - 2)" by simp_all
  have "a \<in> set (maze s ! (length (maze s) - 1))" using ka b1 by (simp add: a_def)
  from rowsExact_row [OF assms(1) _ this] l1
  have ra: "rowIndex (heap s ! a) = length (maze s) - 1" by simp
  have "b \<in> set (maze s ! (length (maze s) - 2))" using kb b2 by (simp add: b_def)
  from rowsExact_row [OF assms(1) _ this] l2
  have rb: "rowIndex (heap s ! b) = length (maze s) - 2" by simp
  have rows: "rowIndex (heap t ! c) = rowIndex (heap s ! c)" for c
    by (simp add: t s2 s1 s0_def pushSubPath_def updPath_def setFloor_def updBlock_def
        nth_update)
  have sub: "subPath (pathHeap t ! m) = [a, b]"
    using assms(3,4)
    by (simp add: t s2 s1 s0_def pushSubPath_def updPath_def setFloor_def updBlock_def
        a_def b_def)
  have cur: "currentBlock t = Some b"
    by (simp add: t b_def pushSubPath_def updPath_def setFloor_def updBlock_def)
  have rest: "mainPath t = mainPath s" "length (pathHeap t) = length (pathHeap s)"
    by (simp_all add: t s2 s1 s0_def pushSubPath_def updPath_def setFloor_def updBlock_def)
  have "nonIncreasing (rowsOf t [a, b])"
    using ra rb by (simp add: nonIncreasing_def rowsOf_def rows)
  with sub cur rest show ?thesis by blast
qed

lemma makePathHead_first:
  assumes "rowsExact s" "makePathHead s = Ok u t"
  shows "\<exists>m a b. mainPath t = Some m \<and> m < length (pathHeap t)
           \<and> subPath (pathHeap t ! m) = [a, b] \<and> currentBlock t = Some b
           \<and> nonIncreasing (rowsOf t [a, b])"
proof -
  define m where "m = length (pathHeap s)"
  define s1 where "s1 = snd (allocPath s)"
  define s2 where "s2 = (updPath m (\<lambda>q. q\<lparr>distance := numberOfRowBlocks s1 * 20\<rparr>)
                           (s1\<lparr>mainPath := Some m\<rparr>))\<lparr>pathSeeds := Own []\<rparr>"
  have run: "makePathStart m s2 = Ok u t"
    using assms(2) by (simp add: makePathHead_def allocPath_def s2_def s1_def m_def)
  have 2: "m < length (pathHeap s2)" "mainPath s2 = Some m" "subPath (pathHeap s2 ! m) = []"
    by (simp_all add: s2_def s1_def allocPath_def updPath_def m_def)
  have "maze s2 = maze s" "heap s2 = heap s"
    by (simp_all add: s2_def s1_def allocPath_def updPath_def)
  with assms(1) have "rowsExact s2" by (simp add: rowsExact_def)
  from makePathStart_first [OF this run 2(1,3)] 2 show ?thesis by auto
qed

section \<open>The target length of a branch\<close>



















text \<open>extendMainPath removes one block from the front of the main path for each block
  it appends, so every path keeps its length.\<close>

definition sameLengths :: "engine \<Rightarrow> engine \<Rightarrow> bool" where
  "sameLengths s t \<longleftrightarrow>
     (\<forall>p. length (subPath (pathHeap t ! p)) = length (subPath (pathHeap s ! p))
          \<and> distance (pathHeap t ! p) = distance (pathHeap s ! p))"

lemma sameLengths_refl [simp]: "sameLengths s s"
  by (simp add: sameLengths_def)







section \<open>Example runs\<close>

text \<open>
  Concrete runs of the program: a width, the values \<open>Math.random\<close> returns and the keys
  pressed. \<open>returned\<close> tells a call that returned from one that threw.
\<close>

definition returned :: "'a result \<Rightarrow> bool" where
  "returned r = (case r of Ok x s \<Rightarrow> True | Threw e s \<Rightarrow> False)"

definition pressed :: "nat list \<Rightarrow> engine \<Rightarrow> engine" where
  "pressed keyCodes s = foldl (\<lambda>t k. finalState (keydown k t)) s keyCodes"

definition zeros :: "nat \<Rightarrow> nat" where
  "zeros i = 0"

definition started3 :: engine where
  "started3 = finalState (start (loaded 3 zeros))"

lemma returned_Ok: "returned r \<Longrightarrow> r = Ok () (finalState r)"
  by (cases r) (auto simp: returned_def)

lemma start3_returned: "returned (start (loaded 3 zeros))"
  by code_simp

lemma reachable_started3: "reachable started3"
  unfolding started3_def
  using reachable.init [of 3 zeros] returned_Ok [OF start3_returned] by simp


text \<open>What a run is checked against: the globals and the fields of chosen blocks.\<close>

definition blockAt :: "engine \<Rightarrow> nat \<Rightarrow> bool \<times> nat \<times> nat \<times> nat option list" where
  "blockAt s b =
     (isWall (heap s ! b), rowIndex (heap s ! b), blockIndex (heap s ! b),
      adjacentBlocks (heap s ! b))"

definition observe ::
  "nat list \<Rightarrow> engine \<Rightarrow>
     nat list list \<times> path list \<times> nat list \<times> nat list \<times> nat option \<times> nat option \<times> nat
       \<times> (bool \<times> nat \<times> nat \<times> nat option list) list"
where
  "observe bs s =
     (maze s, pathHeap s, paths s, pathsToSplice s, mainPath s, character s, length (heap s),
      map (blockAt s) bs)"

text \<open>Width 4: a main path with a sideways step in the row above the bottom row.\<close>

definition draws4 :: "nat \<Rightarrow> nat" where
  "draws4 i = (if i = 1 then 3 else if even i then 4 else 0)"

definition started4 :: engine where
  "started4 = finalState (start (loaded 4 draws4))"

definition shifted4 :: engine where
  "shifted4 = pressed [87, 68, 87, 87] started4"

definition shiftedTwice4 :: engine where
  "shiftedTwice4 = finalState (keydown 87 shifted4)"

lemma reachable_pressed: "reachable s \<Longrightarrow> reachable (pressed ks s)"
proof (induction ks arbitrary: s)
  case Nil
  then show ?case by (simp add: pressed_def)
next
  case (Cons k ks)
  from Cons.IH [OF reachable.key [OF Cons.prems, of k]] show ?case
    by (simp add: pressed_def)
qed

lemma start4_returned: "returned (start (loaded 4 draws4))"
  by code_simp

lemma reachable_shifted4: "reachable shifted4"
  unfolding shifted4_def started4_def
  using reachable.init [of 4 draws4] returned_Ok [OF start4_returned]
  by (simp add: reachable_pressed)

lemma shifted4_observed:
  "observe [35] shifted4 =
     ([[39, 40, 41], [0, 1, 2], [3, 4, 5], [6, 7, 8], [9, 10, 11], [12, 13, 14],
       [15, 16, 17], [18, 19, 20], [21, 22, 23], [24, 25, 26], [27, 28, 29],
       [30, 31, 32], [33, 34, 35]],
      [\<lparr>subPath = [34, 35, 32, 29, 26, 23, 20, 17, 14, 11, 8, 5, 2], distance = 80\<rparr>],
      [0], [], Some 0, Some 29, 42, [(False, 12, 2, [Some 32, Some 34])])"
  by code_simp

lemma shiftedTwice4_observed:
  "observe [35, 32] shiftedTwice4 =
     ([[42, 43, 44], [39, 40, 41], [0, 1, 2], [3, 4, 5], [6, 7, 8], [9, 10, 11],
       [12, 13, 14], [15, 16, 17], [18, 19, 20], [21, 22, 23], [24, 25, 26],
       [27, 28, 29], [30, 31, 32]],
      [\<lparr>subPath = [35, 32, 29, 26, 23, 20, 17, 14, 11, 8, 5, 2, 41], distance = 80\<rparr>],
      [0], [], Some 0, Some 26, 45,
      [(False, 12, 2, []), (False, 12, 2, [Some 29, Some 31])])"
  by code_simp


text \<open>Width 3, every random value \<open>0\<close>, the key W twice: the second W shifts the maze.\<close>

definition shifted3 :: engine where
  "shifted3 = pressed [87, 87] started3"

definition gridSize :: "engine \<Rightarrow> nat \<times> nat \<times> nat list" where
  "gridSize s = (numberOfRowBlocks s, length (maze s), map length (maze s))"

lemma started3_gridSize: "gridSize started3 = (3, 10, [2, 2, 2, 2, 2, 2, 2, 2, 2, 2])"
  by code_simp

lemma shifted3_observed:
  "observe [20, 21] shifted3 =
     ([[20, 21], [0, 1], [2, 3], [4, 5], [6, 7], [8, 9], [10, 11], [12, 13], [14, 15],
       [16, 17]],
      [\<lparr>subPath = [17, 15, 13, 11, 9, 7, 5, 3, 1], distance = 60\<rparr>,
       \<lparr>subPath = [15], distance = 0\<rparr>, \<lparr>subPath = [13], distance = 0\<rparr>,
       \<lparr>subPath = [11], distance = 0\<rparr>, \<lparr>subPath = [9], distance = 0\<rparr>,
       \<lparr>subPath = [7], distance = 0\<rparr>, \<lparr>subPath = [5, 3], distance = 0\<rparr>,
       \<lparr>subPath = [3, 2], distance = 0\<rparr>],
      [0], [], Some 0, Some 15, 22, [(True, 0, 0, []), (True, 0, 1, [])])"
  by code_simp

lemma shifted3_rebuilt:
  "blockAt (finalState (getAdjacentBlocks 20 shifted3)) 20 = (True, 0, 0, [Some 21, Some 0])"
  by code_simp

lemma shifted3_returned: "returned (keydown 87 (pressed [87] started3))"
  by code_simp






text \<open>
  Width 6: the main path runs up the last column; one seed on it, a branch of four
  blocks from that seed with one second seed, a branch of four blocks from the second
  seed, which sets one more seed aside.
\<close>

definition draws6 :: "nat \<Rightarrow> nat" where
  "draws6 i =
     (if i < 48
      then [3, 0, 4, 0, 4, 0, 4, 0, 4, 0, 4, 0, 4, 0, 4, 0, 4, 0, 0, 0, 4, 0, 4, 0, 4, 0, 4, 0, 4,
            0, 4, 0, 4, 4, 0, 4, 0, 0, 2, 4, 0, 4, 0, 0, 0, 4, 0, 4] ! i
      else 0)"

text \<open>The state when the while loop of makePath ends, the state after the loop over
  \<open>pathSeeds\<close>, and the state after the loop that follows \<open>pathSeeds = secondSeeds\<close>.\<close>

definition grown6 :: engine where
  "grown6 =
     finalState
       (andThen (andThen (makeMaze (makePointGrid (calculateDimensions (loaded 6 draws6))))
                   (\<lambda>u. makePathHead))
          (\<lambda>u. makePathLoop))"

definition firstGeneration6 :: engine where
  "firstGeneration6 = finalState (growSeeds 0 grown6)"

definition secondGeneration6 :: engine where
  "secondGeneration6 =
     finalState (growSeeds 0 (firstGeneration6\<lparr>pathSeeds := SameAsSecondSeeds\<rparr>))"

definition branches :: "engine \<Rightarrow> nat list list \<times> nat list \<times> nat list \<times> bool list" where
  "branches s =
     (map subPath (pathHeap s), seedsOf s, secondSeeds s, map (\<lambda>b. isWall (heap s ! b)) [32, 31])"

lemma grown6_branches:
  "branches grown6 =
     ([[94, 89, 84, 79, 74, 69, 64, 59, 54, 49, 44, 39, 34, 29, 24, 19, 14, 9]],
      [44], [], [True, True])"
  by code_simp

lemma firstGeneration6_branches:
  "branches firstGeneration6 =
     ([[94, 89, 84, 79, 74, 69, 64, 59, 54, 49, 44, 39, 34, 29, 24, 19, 14, 9],
       [44, 43, 42, 41]],
      [44], [42], [True, True])"
  by code_simp

lemma secondGeneration6_branches:
  "branches secondGeneration6 =
     ([[94, 89, 84, 79, 74, 69, 64, 59, 54, 49, 44, 39, 34, 29, 24, 19, 14, 9],
       [44, 43, 42, 41], [42, 37, 32, 27], [32, 31]],
      [42, 32], [42, 32], [False, False])"
  by code_simp


section \<open>Claims settled on example runs\<close>

text \<open>
  C1, as stated (the grid has \<open>3 * numberOfRowBlocks\<close> rows of \<open>numberOfRowBlocks\<close>
  blocks), fails in the state \<open>start\<close> leaves for width 3: 10 rows of 2 blocks.
\<close>

theorem grid_dimensions_counterexample:
  "reachable started3 \<and> numberOfRowBlocks started3 = 3
   \<and> length (maze started3) \<noteq> 3 * numberOfRowBlocks started3
   \<and> length (maze started3 ! 0) \<noteq> numberOfRowBlocks started3"
proof -
  have 1: "length (maze started3) = 10"
    and 2: "map length (maze started3) = [2, 2, 2, 2, 2, 2, 2, 2, 2, 2]"
    and 3: "numberOfRowBlocks started3 = 3"
    using started3_gridSize by (simp_all add: gridSize_def)
  have "length (maze started3 ! 0) = map length (maze started3) ! 0"
    using 1 by simp
  then have "length (maze started3 ! 0) = 2" by (simp add: 2)
  then show ?thesis using 1 3 reachable_started3 by simp
qed

text \<open>
  C2. Width 4, the random values \<open>draws4\<close>, the keys W, D, W, W, W. The fifth key shifts
  the maze for the second time. Block 35 is in the bottom row before that shift and in
  no row after it, and it is still the first block of the main path, which is in
  \<open>paths\<close>.
\<close>

theorem main_path_keeps_detached_block:
  "reachable shifted4 \<and> returned (keydown 87 shifted4)
   \<and> shiftedTwice4 = finalState (keydown 87 shifted4)
   \<and> 35 \<in> set (last (maze shifted4))
   \<and> 35 \<notin> set (concat (maze shiftedTwice4))
   \<and> mainPath shiftedTwice4 = Some 0 \<and> 0 \<in> set (paths shiftedTwice4)
   \<and> 35 \<in> set (subPath (pathHeap shiftedTwice4 ! 0))"
proof -
  have 1: "returned (keydown 87 shifted4)" by code_simp
  show ?thesis
    using shifted4_observed shiftedTwice4_observed reachable_shifted4 1
    by (simp add: observe_def shiftedTwice4_def [symmetric])
qed

text \<open>
  C5, as stated, fails in the same state: the first two blocks of the main path, 35 and
  32, carry the same row and column indices, so the second is not a grid neighbour of
  the first.
\<close>

theorem path_neighbours_counterexample:
  "reachable shiftedTwice4 \<and> 0 \<in> set (paths shiftedTwice4)
   \<and> take 2 (subPath (pathHeap shiftedTwice4 ! 0)) = [35, 32]
   \<and> rowIndex (heap shiftedTwice4 ! 35) = rowIndex (heap shiftedTwice4 ! 32)
   \<and> blockIndex (heap shiftedTwice4 ! 35) = blockIndex (heap shiftedTwice4 ! 32)"
proof -
  have "reachable shiftedTwice4"
    unfolding shiftedTwice4_def by (rule reachable.key [OF reachable_shifted4])
  then show ?thesis
    using shiftedTwice4_observed by (simp add: observe_def blockAt_def)
qed

text \<open>
  C6. Width 3, every random value \<open>0\<close>, the keys W, W. The second key shifts the maze.
  Afterwards block 20 is the block of row 0, column 0, and its list of adjacent blocks
  is empty; getAdjacentBlocks computes the right and the down neighbour for it.
\<close>

theorem new_row_adjacency_not_rebuilt:
  "returned (keydown 87 (pressed [87] started3))
   \<and> shifted3 = finalState (keydown 87 (pressed [87] started3))
   \<and> maze shifted3 ! 0 ! 0 = 20
   \<and> rowIndex (heap shifted3 ! 20) = 0 \<and> blockIndex (heap shifted3 ! 20) = 0
   \<and> adjacentBlocks (heap shifted3 ! 20) = []
   \<and> adjacentBlocks (heap (finalState (getAdjacentBlocks 20 shifted3)) ! 20) = [Some 21, Some 0]"
  using shifted3_observed shifted3_rebuilt shifted3_returned
  by (simp add: observe_def blockAt_def shifted3_def pressed_def)

text \<open>
  C7. Width 6 and the random values \<open>draws6\<close>. The loop over the seeds of the main path
  makes one branch and leaves one second seed, block 42. The loop that follows
  \<open>pathSeeds = secondSeeds\<close> makes a branch from block 42, which sets block 32 aside,
  and then a branch from block 32 as well: that branch turns block 31 into floor.
\<close>

theorem branch_of_a_later_seed:
  "secondSeeds firstGeneration6 = [42]
   \<and> map subPath (pathHeap firstGeneration6)
       = [[94, 89, 84, 79, 74, 69, 64, 59, 54, 49, 44, 39, 34, 29, 24, 19, 14, 9],
          [44, 43, 42, 41]]
   \<and> isWall (heap firstGeneration6 ! 32) \<and> isWall (heap firstGeneration6 ! 31)
   \<and> map subPath (pathHeap secondGeneration6)
       = [[94, 89, 84, 79, 74, 69, 64, 59, 54, 49, 44, 39, 34, 29, 24, 19, 14, 9],
          [44, 43, 42, 41], [42, 37, 32, 27], [32, 31]]
   \<and> \<not> isWall (heap secondGeneration6 ! 31)"
  using firstGeneration6_branches secondGeneration6_branches
  by (simp add: branches_def)


lemmas run_defs =
  start_def loaded_def calculateDimensions_def makePointGrid_def makeMaze_def makeMazeRow_def
  placeBlock_def allocBlock_def allocPath_def andThen_def at_def resetRow_def
  getAdjacentBlocks_def neighbour_def updBlock_def updPath_def makePath_def makePathHead_def
  makePathStart_def rowFromEnd_def randomBlockIndex_def randomFloor_def firstBlocks_def
  Let_def

text \<open>
  C9, as stated, fails for width 2: \<open>start\<close> throws, and the state it leaves holds a grid
  of 7 rows and 7 blocks and a path in \<open>paths\<close>.
\<close>

theorem width_two_counterexample:
  "\<not> returned (start (loaded 2 zeros))
   \<and> length (maze (finalState (start (loaded 2 zeros)))) = 7
   \<and> length (heap (finalState (start (loaded 2 zeros)))) = 7
   \<and> paths (finalState (start (loaded 2 zeros))) = [0]"
  by (simp add: run_defs upt_rec returned_def)

lemma small0:
  "\<exists>s1 s2. makeMaze (makePointGrid (calculateDimensions (loaded 0 r))) = Ok () s1
     \<and> length (maze s1) = 1 \<and> makePath s1 = Threw TypeError s2 \<and> maze s2 = maze s1
     \<and> paths s2 = [0] \<and> character s2 = None \<and> start (loaded 0 r) = Threw TypeError s2"
  by (simp add: run_defs upt_rec)

lemma small1:
  "\<exists>s1 s2. makeMaze (makePointGrid (calculateDimensions (loaded 1 r))) = Ok () s1
     \<and> length (maze s1) = 4 \<and> makePath s1 = Threw TypeError s2 \<and> maze s2 = maze s1
     \<and> paths s2 = [0] \<and> character s2 = None \<and> start (loaded 1 r) = Threw TypeError s2"
  by (simp add: run_defs upt_rec)

lemma small2:
  "\<exists>s1 s2. makeMaze (makePointGrid (calculateDimensions (loaded 2 r))) = Ok () s1
     \<and> length (maze s1) = 7 \<and> makePath s1 = Threw TypeError s2 \<and> maze s2 = maze s1
     \<and> paths s2 = [0] \<and> character s2 = None \<and> start (loaded 2 r) = Threw TypeError s2"
  by (simp add: run_defs upt_rec)

text \<open>
  C9, amended. For a width below 3 and any random values, makeMaze returns with a grid
  of \<open>3 * width + 1\<close> rows, makePath then throws a TypeError, and so does \<open>start\<close>; the
  state left holds that grid and the new main path in \<open>paths\<close>, and no character.
\<close>

theorem small_width_fails_in_makePath:
  assumes "n < 3"
  shows "\<exists>s1 s2. makeMaze (makePointGrid (calculateDimensions (loaded n r))) = Ok () s1
     \<and> length (maze s1) = 3 * n + 1 \<and> makePath s1 = Threw TypeError s2 \<and> maze s2 = maze s1
     \<and> paths s2 = [0] \<and> character s2 = None \<and> start (loaded n r) = Threw TypeError s2"
proof -
  from assms consider "n = 0" | "n = 1" | "n = 2" by linarith
  then show ?thesis
  proof cases
    case 1
    with small0 [of r] show ?thesis by simp
  next
    case 2
    with small1 [of r] show ?thesis by simp
  next
    case 3
    with small2 [of r] show ?thesis by simp
  qed
qed

theorem small_width_fails_witness:
  "(1::nat) < 3
   \<and> (\<exists>s1 s2. makeMaze (makePointGrid (calculateDimensions (loaded 1 zeros))) = Ok () s1
     \<and> length (maze s1) = 3 * 1 + 1 \<and> makePath s1 = Threw TypeError s2 \<and> maze s2 = maze s1
     \<and> paths s2 = [0] \<and> character s2 = None \<and> start (loaded 1 zeros) = Threw TypeError s2)"
  using small_width_fails_in_makePath [of 1 zeros] by simp

section \<open>Rejected moves\<close>

text \<open>
  The block a key would move the character to, by the index arithmetic of the four move
  functions: \<open>None\<close> when that block does not exist (outside the grid), and for a key
  that is not a direction.
\<close>

definition destination :: "nat \<Rightarrow> engine \<Rightarrow> nat option" where
  "destination keyCode s =
     (case character s of
        None \<Rightarrow> None
      | Some cur \<Rightarrow>
          if cur < length (heap s)
          then (if keyCode = 87
                then target (before (rowIndex (heap s ! cur))) (Some (blockIndex (heap s ! cur))) s
                else if keyCode = 65
                then target (Some (rowIndex (heap s ! cur))) (before (blockIndex (heap s ! cur))) s
                else if keyCode = 83
                then target (Some (rowIndex (heap s ! cur) + 1)) (Some (blockIndex (heap s ! cur))) s
                else if keyCode = 68
                then target (Some (rowIndex (heap s ! cur))) (Some (blockIndex (heap s ! cur) + 1)) s
                else None)
          else None)"

lemma moveTo_rejected:
  "t = None \<or> (\<exists>b. t = Some b \<and> isWall (heap s ! b)) \<Longrightarrow> finalState (moveTo t s) = s"
  by (auto simp: moveTo_def)

lemma moveUp_rejected:
  assumes "destination 87 s = None \<or> (\<exists>b. destination 87 s = Some b \<and> isWall (heap s ! b))"
  shows "finalState (moveUp s) = s"
proof (cases "character s")
  case None
  then show ?thesis by (simp add: moveUp_def)
next
  case (Some cur)
  show ?thesis
  proof (cases "cur < length (heap s)")
    case False
    with Some show ?thesis by (simp add: moveUp_def)
  next
    case True
    let ?t = "target (before (rowIndex (heap s ! cur))) (Some (blockIndex (heap s ! cur))) s"
    from assms Some True have "?t = None \<or> (\<exists>b. ?t = Some b \<and> isWall (heap s ! b))"
      by (simp add: destination_def)
    then show ?thesis
    proof
      assume "?t = None"
      with Some True show ?thesis by (simp add: moveUp_def)
    next
      assume "\<exists>b. ?t = Some b \<and> isWall (heap s ! b)"
      then obtain b where "?t = Some b" "isWall (heap s ! b)" by blast
      with Some True show ?thesis by (simp add: moveUp_def)
    qed
  qed
qed

text \<open>
  C3. For each of the four directions and every state: when the block in that direction
  is a wall or does not exist, the key handler leaves the whole state as it was (so the
  location of the character, the wall flag of every block and the paths are unchanged).
\<close>

theorem move_rejected_state_unchanged:
  assumes "keyCode \<in> {87, 65, 83, 68}"
    and "destination keyCode s = None
         \<or> (\<exists>b. destination keyCode s = Some b \<and> isWall (heap s ! b))"
  shows "finalState (keydown keyCode s) = s"
proof (cases "\<exists>cur. character s = Some cur \<and> cur < length (heap s)")
  case False
  then have "character s = None \<or> (\<exists>cur. character s = Some cur \<and> \<not> cur < length (heap s))"
    by (cases "character s") auto
  then show ?thesis
    by (auto simp: keydown_def moveUp_def moveDown_def moveLeft_def moveRight_def)
next
  case True
  then obtain cur where cur: "character s = Some cur" "cur < length (heap s)" by blast
  from assms(1) consider "keyCode = 87" | "keyCode = 65" | "keyCode = 83" | "keyCode = 68"
    by auto
  then show ?thesis
  proof cases
    case 1
    with assms(2) show ?thesis by (simp add: keydown_def moveUp_rejected)
  next
    case 2
    with assms(2) cur show ?thesis
      by (simp add: keydown_def moveLeft_def destination_def moveTo_rejected)
  next
    case 3
    with assms(2) cur show ?thesis
      by (simp add: keydown_def moveDown_def destination_def moveTo_rejected)
  next
    case 4
    with assms(2) cur show ?thesis
      by (simp add: keydown_def moveRight_def destination_def moveTo_rejected)
  qed
qed

theorem move_rejected_witness:
  "(65::nat) \<in> {87, 65, 83, 68} \<and> destination 65 started3 = Some 18
   \<and> isWall (heap started3 ! 18) \<and> destination 83 started3 = None
   \<and> finalState (keydown 65 started3) = started3
   \<and> finalState (keydown 83 started3) = started3"
proof -
  have d: "destination 65 started3 = Some 18 \<and> isWall (heap started3 ! 18)"
    by code_simp
  have e: "destination 83 started3 = None"
    by code_simp
  show ?thesis
    using d e move_rejected_state_unchanged [of 65 started3]
      move_rejected_state_unchanged [of 83 started3]
    by simp
qed

section \<open>Invariants of the reachable states\<close>

text \<open>
  C1, as the program has it. In every reachable state the maze has
  \<open>3 * numberOfRowBlocks + 1\<close> rows, and every row has \<open>numberOfRowBlocks - 1\<close> blocks:
  the point grid has \<open>3 * (numberOfRowBlocks + 1)\<close> rows of \<open>numberOfRowBlocks + 1\<close>
  points, and both loops of makeMaze stop two short of the number of points.
\<close>

theorem grid_dimensions:
  assumes "reachable s"
  shows "length (maze s) = 3 * numberOfRowBlocks s + 1
         \<and> (\<forall>row\<in>set (maze s). length row = numberOfRowBlocks s - 1)"
  using reachable_settled [OF assms] by (simp add: settled_def gridShape_def)

theorem grid_dimensions_witness:
  "reachable started3 \<and> numberOfRowBlocks started3 = 3 \<and> length (maze started3) = 10
   \<and> length (maze started3 ! 0) = 2 \<and> length (maze started3 ! 9) = 2"
proof -
  have n: "numberOfRowBlocks started3 = 3"
    using started3_gridSize by (simp add: gridSize_def)
  from grid_dimensions [OF reachable_started3] n
  have l: "length (maze started3) = 10"
    and r: "\<forall>row\<in>set (maze started3). length row = 2" by simp_all
  have "maze started3 ! 0 \<in> set (maze started3)" "maze started3 ! 9 \<in> set (maze started3)"
    using l by simp_all
  with r have "length (maze started3 ! 0) = 2" "length (maze started3 ! 9) = 2" by blast+
  with n l reachable_started3 show ?thesis by simp
qed

text \<open>
  C10. In every reachable state the character stands on a block that exists and is not
  a wall.
\<close>

theorem character_on_floor:
  assumes "reachable s"
  shows "\<exists>c. character s = Some c \<and> c < length (heap s) \<and> \<not> isWall (heap s ! c)"
  using reachable_settled [OF assms] by (auto simp: settled_def sound_def)

theorem character_on_floor_witness:
  "reachable shifted3 \<and> character shifted3 = Some 15 \<and> 15 < length (heap shifted3)
   \<and> \<not> isWall (heap shifted3 ! 15)"
proof -
  have r: "reachable shifted3"
    unfolding shifted3_def by (rule reachable_pressed [OF reachable_started3])
  have "character shifted3 = Some 15"
    using shifted3_observed by (simp add: observe_def)
  then show ?thesis using character_on_floor [OF r] r by simp
qed

section \<open>The shape of the paths\<close>

text \<open>extendMainPath is called in a state whose references are all good.\<close>

lemma rebase_sound:
  assumes "reachable s"
  shows "sound (prunePaths (finalState (shiftGrid s)))"
proof -
  have "sound s" using reachable_settled [OF assms] by (simp add: settled_def)
  from regrid_sound [OF regrid_shiftGrid this] have "sound (finalState (shiftGrid s))" .
  from carved_sound [OF prunePaths_carved this] show ?thesis .
qed

text \<open>Width 3, every random value \<open>0\<close>: the new maze, the state when the while loop of
  makePath begins, and the state when the first rebase calls extendMainPath.\<close>

definition built3 :: engine where
  "built3 = finalState (makeMaze (makePointGrid (calculateDimensions (loaded 3 zeros))))"

definition headed3 :: engine where
  "headed3 = finalState (makePathHead built3)"

definition rebased3 :: engine where
  "rebased3 = prunePaths (finalState (shiftGrid (pressed [87] started3)))"

definition mainPathOf :: "engine \<Rightarrow> nat option \<times> nat list list \<times> nat option" where
  "mainPathOf s = (mainPath s, map subPath (pathHeap s), currentBlock s)"

lemma built3_rowsExact: "rowsExact built3"
proof -
  let ?s = "makePointGrid (calculateDimensions (loaded 3 zeros))"
  have "pointGrid ?s = replicate (3 * (numberOfRowBlocks ?s + 1)) (numberOfRowBlocks ?s + 1)"
    by (simp add: makePointGrid_def calculateDimensions_def loaded_def)
  from makeMaze_shape(4) [OF this] show ?thesis by (simp add: built3_def)
qed

lemma headed3_returned: "returned (makePathHead built3)"
  by code_simp

lemma headed3_mainPath: "mainPathOf headed3 = (Some 0, [[19, 17]], Some 17)"
  by code_simp

lemma rebased3_mainPath:
  "mainPathOf rebased3
     = (Some 0, [[19, 17, 15, 13, 11, 9, 7, 5, 3], [15], [13], [11], [9], [7], [5, 3], [3, 2]],
        Some 2)"
  by code_simp

text \<open>
  C4. The main path never moves down; rows are numbered from the top, so the row
  indices along the path never increase. The first two blocks makePath puts in the main
  path of a new maze are a block of the bottom row and the block above it. The blocks
  the while loop of makePath appends after the current block, and the blocks
  extendMainPath appends after the last block of the path (it removes one block from
  the front for each), are each in a row not below the row of the block before.
\<close>

theorem main_path_never_moves_down:
  "(rowsExact s0 \<and> makePathHead s0 = Ok u s1 \<longrightarrow>
      (\<exists>m a b. mainPath s1 = Some m \<and> m < length (pathHeap s1)
         \<and> subPath (pathHeap s1 ! m) = [a, b] \<and> currentBlock s1 = Some b
         \<and> nonIncreasing (rowsOf s1 [a, b])))
   \<and> (mainPath s = Some m \<and> m < length (pathHeap s) \<and> currentBlock s = Some cur \<longrightarrow>
      (\<exists>added. subPath (pathHeap (finalState (makePathLoop s)) ! m)
                  = subPath (pathHeap s ! m) @ added
         \<and> nonIncreasing (rowsOf (finalState (makePathLoop s)) (cur # added))))
   \<and> (sound s' \<and> mainPath s' = Some m' \<and> m' < length (pathHeap s')
        \<and> subPath (pathHeap s' ! m') \<noteq> [] \<longrightarrow>
      (\<exists>added. subPath (pathHeap (finalState (extendMainPath s')) ! m')
                  = drop (length added) (subPath (pathHeap s' ! m') @ added)
         \<and> nonIncreasing (rowsOf (finalState (extendMainPath s'))
              (last (subPath (pathHeap s' ! m')) # added))))"
proof (intro conjI impI)
  assume "rowsExact s0 \<and> makePathHead s0 = Ok u s1"
  then show "\<exists>m a b. mainPath s1 = Some m \<and> m < length (pathHeap s1)
         \<and> subPath (pathHeap s1 ! m) = [a, b] \<and> currentBlock s1 = Some b
         \<and> nonIncreasing (rowsOf s1 [a, b])"
    using makePathHead_first [of s0 u s1] by simp
next
  assume "mainPath s = Some m \<and> m < length (pathHeap s) \<and> currentBlock s = Some cur"
  then show "\<exists>added. subPath (pathHeap (finalState (makePathLoop s)) ! m)
                  = subPath (pathHeap s ! m) @ added
         \<and> nonIncreasing (rowsOf (finalState (makePathLoop s)) (cur # added))"
    using makePathLoop_rows [of s m cur] by simp
next
  assume "sound s' \<and> mainPath s' = Some m' \<and> m' < length (pathHeap s')
        \<and> subPath (pathHeap s' ! m') \<noteq> []"
  then show "\<exists>added. subPath (pathHeap (finalState (extendMainPath s')) ! m')
                  = drop (length added) (subPath (pathHeap s' ! m') @ added)
         \<and> nonIncreasing (rowsOf (finalState (extendMainPath s'))
              (last (subPath (pathHeap s' ! m')) # added))"
    using extendMainPath_rows [of s' m'] by simp
qed

theorem main_path_never_moves_down_witness:
  "(\<exists>m a b. mainPath headed3 = Some m \<and> m < length (pathHeap headed3)
         \<and> subPath (pathHeap headed3 ! m) = [a, b] \<and> currentBlock headed3 = Some b
         \<and> nonIncreasing (rowsOf headed3 [a, b]))
   \<and> subPath (pathHeap headed3 ! 0) = [19, 17]
   \<and> (\<exists>added. subPath (pathHeap (finalState (makePathLoop headed3)) ! 0) = [19, 17] @ added
         \<and> nonIncreasing (rowsOf (finalState (makePathLoop headed3)) (17 # added)))
   \<and> subPath (pathHeap rebased3 ! 0) = [19, 17, 15, 13, 11, 9, 7, 5, 3]
   \<and> (\<exists>added. subPath (pathHeap (finalState (extendMainPath rebased3)) ! 0)
                  = drop (length added) ([19, 17, 15, 13, 11, 9, 7, 5, 3] @ added)
         \<and> nonIncreasing (rowsOf (finalState (extendMainPath rebased3)) (3 # added)))"
proof -
  have h: "makePathHead built3 = Ok () headed3"
    using returned_Ok [OF headed3_returned] by (simp add: headed3_def)
  have m: "mainPath headed3 = Some 0" "0 < length (pathHeap headed3)"
    "currentBlock headed3 = Some 17" "subPath (pathHeap headed3 ! 0) = [19, 17]"
    using headed3_mainPath by (auto simp: mainPathOf_def)
  have r: "sound rebased3"
    unfolding rebased3_def
    by (rule rebase_sound [OF reachable_pressed [OF reachable_started3]])
  have n: "mainPath rebased3 = Some 0" "0 < length (pathHeap rebased3)"
    "subPath (pathHeap rebased3 ! 0) = [19, 17, 15, 13, 11, 9, 7, 5, 3]"
    using rebased3_mainPath by (auto simp: mainPathOf_def)
  show ?thesis
    using main_path_never_moves_down [of built3 "()" headed3 headed3 0 17 rebased3 0]
      built3_rowsExact h m r n
    by simp
qed


end
